theory Spec2Isabelle
  imports Complex_Main
begin

section \<open>The nucleation model of \<open>sciml/op_lib/nucleation.py\<close>\<close>

text \<open>
  The module places nucleation sites on a heater (\<open>heater_init\<close>), builds the initial
  distance field as a union of circular seeds (\<open>dfun_init\<close>), samples the field at every
  site and counts how long the site has been covered by liquid (\<open>tag_renucleation\<close>), and
  re-seeds the sites that have been covered for long enough (\<open>renucleate\<close>).

  Numbers. The arrays of the module hold IEEE doubles. Field values are \<open>fval\<close>: a finite
  real or one of the special values \<open>nan\<close>, \<open>-inf\<close>, \<open>inf\<close>. Where the computed number decides
  what the program does next or is the subject of a guarantee (in the tagger the seed
  centre, which selects the cell, and the sample, whose sign moves the counter; the sites of
  \<open>heater_init\<close>), the arithmetic is that of doubles: the exact result rounded to the nearest
  double, ties to even, overflowing to infinity (\<open>round_double\<close>). The seeds and fields of
  \<open>dfun_init\<close> and \<open>renucleate\<close> are given as the exact real formulas of the source (rounding
  and signed zeros are not modelled there). Coordinates, radii and scales are finite
  doubles, written as the real numbers they are.
  The counters are a numpy \<open>int64\<close> array, one integer per site: an \<open>int\<close> with the
  wrap-around written out.
  The array \<open>np.zeros_like(x_sites)\<close> of the tagger has the element type of \<open>x_sites\<close>
  (\<open>dtype\<close>): a \<open>float64\<close> array, as \<open>heater_init\<close> returns it, stores a sample as it is, an
  \<open>int64\<close> array stores it truncated.

  Arrays. A one-dimensional array is a list, a two-dimensional array a list of rows.
  Element-wise operations of numpy are modelled on arrays of one shape (\<open>same_shape\<close>):
  numpy broadcasts or raises on other shapes, which is not modelled, so the theorems about
  fields assume that the arrays involved have one shape. Indexing follows Python: a negative
  index counts from the end, an index out of range raises \<open>IndexError\<close>.
\<close>

subsection \<open>Field values\<close>

datatype fval = NaN | NInf | Fin real | PInf

text \<open>\<open>np.maximum\<close>: a NaN operand is returned.\<close>

fun fmaximum :: "fval \<Rightarrow> fval \<Rightarrow> fval" where
  "fmaximum NaN _ = NaN"
| "fmaximum _ NaN = NaN"
| "fmaximum PInf _ = PInf"
| "fmaximum _ PInf = PInf"
| "fmaximum NInf b = b"
| "fmaximum a NInf = a"
| "fmaximum (Fin a) (Fin b) = Fin (max a b)"

text \<open>
  True division of an array element by a Python float, as an exact quotient. numpy does not
  raise on a zero divisor: it yields \<open>inf\<close>, \<open>-inf\<close> or \<open>nan\<close> (with a warning).
\<close>

fun fdiv :: "fval \<Rightarrow> real \<Rightarrow> fval" where
  "fdiv NaN d = NaN"
| "fdiv PInf d = (if d < 0 then NInf else PInf)"
| "fdiv NInf d = (if d < 0 then PInf else NInf)"
| "fdiv (Fin a) d =
     (if d = 0 then (if a = 0 then NaN else if 0 < a then PInf else NInf)
      else Fin (a / d))"

text \<open>The comparison \<open>v < 0\<close>; it is false on NaN.\<close>

fun fneg :: "fval \<Rightarrow> bool" where
  "fneg NaN = False"
| "fneg NInf = True"
| "fneg (Fin a) = (a < 0)"
| "fneg PInf = False"


subsection \<open>Double arithmetic\<close>

text \<open>
  IEEE 754 binary64 with the default rounding: a significand of 53 bits, exponents from
  -1022 to 1023, gradual underflow. \<open>round_even\<close> rounds a real to the nearest integer, a tie
  to the even one. A positive real \<open>a\<close> lies in the binade of exponent \<open>double_exp a\<close>, where
  neighbouring doubles are \<open>double_ulp a\<close> apart; \<open>double_mag a\<close> is the nearest multiple of
  that spacing. \<open>round_double\<close> is the double an operation returns for the exact result
  \<open>x\<close>: infinite when the rounded magnitude reaches \<open>2^1024\<close>.
\<close>

definition round_even :: "real \<Rightarrow> int" where
  "round_even t =
     (let f = \<lfloor>t\<rfloor>
      in if t - of_int f < 1 / 2 then f
         else if 1 / 2 < t - of_int f then f + 1
         else if even f then f else f + 1)"

definition double_exp :: "real \<Rightarrow> int" where
  "double_exp a = max \<lfloor>log 2 a\<rfloor> (- 1022)"

definition double_ulp :: "real \<Rightarrow> real" where
  "double_ulp a = 2 powr (of_int (double_exp a) - 52)"

definition double_mag :: "real \<Rightarrow> real" where
  "double_mag a = of_int (round_even (a / double_ulp a)) * double_ulp a"

definition round_double :: "real \<Rightarrow> fval" where
  "round_double x =
     (if x = 0 then Fin 0
      else if 2 powr 1024 \<le> double_mag \<bar>x\<bar> then (if 0 < x then PInf else NInf)
      else Fin (if 0 < x then double_mag \<bar>x\<bar> else - double_mag \<bar>x\<bar>))"

text \<open>Addition, multiplication and division of doubles, with the special values.\<close>

fun dadd :: "fval \<Rightarrow> fval \<Rightarrow> fval" where
  "dadd NaN _ = NaN"
| "dadd _ NaN = NaN"
| "dadd PInf NInf = NaN"
| "dadd NInf PInf = NaN"
| "dadd PInf _ = PInf"
| "dadd _ PInf = PInf"
| "dadd NInf _ = NInf"
| "dadd _ NInf = NInf"
| "dadd (Fin a) (Fin b) = round_double (a + b)"

fun dmul :: "fval \<Rightarrow> fval \<Rightarrow> fval" where
  "dmul NaN _ = NaN"
| "dmul _ NaN = NaN"
| "dmul (Fin a) (Fin b) = round_double (a * b)"
| "dmul (Fin a) PInf = (if a = 0 then NaN else if 0 < a then PInf else NInf)"
| "dmul (Fin a) NInf = (if a = 0 then NaN else if 0 < a then NInf else PInf)"
| "dmul PInf (Fin b) = (if b = 0 then NaN else if 0 < b then PInf else NInf)"
| "dmul NInf (Fin b) = (if b = 0 then NaN else if 0 < b then NInf else PInf)"
| "dmul PInf PInf = PInf"
| "dmul NInf NInf = PInf"
| "dmul PInf NInf = NInf"
| "dmul NInf PInf = NInf"

fun ddiv :: "fval \<Rightarrow> real \<Rightarrow> fval" where
  "ddiv NaN d = NaN"
| "ddiv PInf d = (if d < 0 then NInf else PInf)"
| "ddiv NInf d = (if d < 0 then PInf else NInf)"
| "ddiv (Fin a) d =
     (if d = 0 then (if a = 0 then NaN else if 0 < a then PInf else NInf)
      else round_double (a / d))"

text \<open>A number is a double when rounding leaves it as it is.\<close>

definition is_double :: "real \<Rightarrow> bool" where
  "is_double x = (round_double x = Fin x)"

text \<open>Addition on \<open>int64\<close> wraps around.\<close>

definition wrap_int64 :: "int \<Rightarrow> int" where
  "wrap_int64 n = (n + 2 ^ 63) mod 2 ^ 64 - 2 ^ 63"

text \<open>
  \<open>np.cos(np.pi/4)\<close> as a double: \<open>0.7071067811865476\<close>, that is \<open>0x1.6a09e667f3bcdp-1\<close>, the
  double nearest to the cosine of 45 degrees.
\<close>

definition cos_pi_4 :: real where
  "cos_pi_4 = 6369051672525773 / 2 ^ 53"

subsection \<open>Arrays\<close>

type_synonym 'a matrix = "'a list list"

datatype error = IndexError | ValueError | OverflowError

definition shape :: "'a matrix \<Rightarrow> nat list" where
  "shape m = map length m"

definition same_shape :: "'a matrix \<Rightarrow> 'b matrix \<Rightarrow> bool" where
  "same_shape a b = (shape a = shape b)"

text \<open>\<open>a[i]\<close> on a one-dimensional array, \<open>a[y, x]\<close> on a two-dimensional one.\<close>

definition getitem :: "'a list \<Rightarrow> int \<Rightarrow> error + 'a" where
  "getitem a i =
     (if 0 \<le> i \<and> i < int (length a) then Inr (a ! nat i)
      else if - int (length a) \<le> i \<and> i < 0 then Inr (a ! nat (int (length a) + i))
      else Inl IndexError)"

definition getitem2 :: "'a matrix \<Rightarrow> int \<Rightarrow> int \<Rightarrow> error + 'a" where
  "getitem2 m y x = (case getitem m y of Inl e \<Rightarrow> Inl e | Inr row \<Rightarrow> getitem row x)"

text \<open>
  The element type of an array, and the value that \<open>a[i] = v\<close> leaves in an array of that
  type for a double \<open>v\<close>. A \<open>float64\<close> array keeps it. An \<open>int64\<close> array takes the number
  truncated towards zero. \<open>nan\<close>, the infinities and a number outside \<open>int64\<close> have no such
  integer: numpy raises or, depending on its version, warns and stores an arbitrary
  integer. The model takes the first; no statement below depends on that case.
\<close>

datatype dtype = Float64 | Int64

fun setitem_value :: "dtype \<Rightarrow> fval \<Rightarrow> error + fval" where
  "setitem_value Float64 v = Inr v"
| "setitem_value Int64 NaN = Inl ValueError"
| "setitem_value Int64 NInf = Inl OverflowError"
| "setitem_value Int64 PInf = Inl OverflowError"
| "setitem_value Int64 (Fin a) =
     (let n = (if 0 \<le> a then \<lfloor>a\<rfloor> else \<lceil>a\<rceil>)
      in if - (2 ^ 63) \<le> n \<and> n < 2 ^ 63 then Inr (Fin (of_int n)) else Inl OverflowError)"

text \<open>\<open>np.maximum\<close> on two fields.\<close>

definition maximum :: "fval matrix \<Rightarrow> fval matrix \<Rightarrow> fval matrix" where
  "maximum a b = map2 (map2 fmaximum) a b"

subsection \<open>Site sampler\<close>

text \<open>
  \<open>scipy.stats.qmc.Halton\<close> is not part of the repository: it is the parameter \<open>qmc\<close>.
  \<open>qmc d seed w n\<close> is the sample of \<open>n\<close> points of dimension \<open>d\<close> that a freshly built
  engine \<open>Halton(d, seed)\<close> returns from \<open>random(n)\<close>, as a list of \<open>n\<close> rows. An engine
  built without a seed draws its scrambling from the entropy of the system, here the
  ambient state \<open>w\<close>; \<open>seeded\<close> says that an engine built with a seed does not.
  \<open>halton_ok\<close> is the rest of the library's contract: \<open>n\<close> rows of \<open>d\<close> numbers of the
  half-open unit interval.
\<close>

type_synonym 'w halton = "nat \<Rightarrow> nat option \<Rightarrow> 'w \<Rightarrow> nat \<Rightarrow> real list list"

definition seeded :: "'w halton \<Rightarrow> bool" where
  "seeded qmc = (\<forall>d s w w' n. qmc d (Some s) w n = qmc d (Some s) w' n)"

definition halton_ok :: "real list list \<Rightarrow> nat \<Rightarrow> nat \<Rightarrow> bool" where
  "halton_ok sample d n =
     (length sample = n \<and>
      (\<forall>row \<in> set sample. length row = d \<and> (\<forall>u \<in> set row. 0 \<le> u \<and> u < 1)))"

text \<open>
  \<open>x_sites[:] = xmin + halton_sample[:, 0] * (xmax - xmin)\<close> in double arithmetic: the
  difference of two Python floats, then the product and the sum element by element.
  \<open>y_sites[:] = 1e-13\<close>.
\<close>

definition heater_init :: "'w halton \<Rightarrow> 'w \<Rightarrow> real \<Rightarrow> real \<Rightarrow> nat \<Rightarrow> fval list \<times> real list" where
  "heater_init qmc w xmin xmax num_sites =
     (let halton_sample = qmc 2 (Some 1) w num_sites;
          width = round_double (xmax - xmin);
          x_sites = map (\<lambda>row. dadd (Fin xmin) (dmul (Fin (row ! 0)) width)) halton_sample;
          y_sites = replicate num_sites (1 / 10 ^ 13)
      in (x_sites, y_sites))"

subsection \<open>Distance field initializer\<close>

text \<open>
  The seed of a site, computed by the same expression in \<open>dfun_init\<close> and \<open>renucleate\<close>:
  \<open>seed_radius - np.sqrt((x_grid - seed_x)**2 + (y_grid - seed_y)**2)\<close>.
\<close>

definition interim_dfun :: "real matrix \<Rightarrow> real matrix \<Rightarrow> real \<Rightarrow> real \<Rightarrow> real \<Rightarrow> real matrix" where
  "interim_dfun x_grid y_grid seed_x seed_y seed_radius =
     map2 (map2 (\<lambda>x y. seed_radius - sqrt ((x - seed_x)\<^sup>2 + (y - seed_y)\<^sup>2))) x_grid y_grid"

fun dfun_init_loop ::
  "real matrix \<Rightarrow> real matrix \<Rightarrow> real \<Rightarrow> real \<Rightarrow> (real \<times> real) list \<Rightarrow> fval matrix \<Rightarrow> fval matrix" where
  "dfun_init_loop x_grid y_grid seed_radius seed_height [] dfun = dfun"
| "dfun_init_loop x_grid y_grid seed_radius seed_height (htr_points_xy # rest) dfun =
     (let seed_x = fst htr_points_xy;
          seed_y = snd htr_points_xy + seed_height;
          interim = interim_dfun x_grid y_grid seed_x seed_y seed_radius
      in dfun_init_loop x_grid y_grid seed_radius seed_height rest
           (maximum dfun (map (map Fin) interim)))"

definition dfun_init :: "real matrix \<Rightarrow> real matrix \<Rightarrow> real list \<Rightarrow> real list \<Rightarrow> real \<Rightarrow> fval matrix" where
  "dfun_init x_grid y_grid x_sites y_sites seed_radius =
     (let dfun = map (map (\<lambda>_. NInf)) x_grid;
          seed_height = seed_radius * cos (pi / 4)
      in dfun_init_loop x_grid y_grid seed_radius seed_height (zip x_sites y_sites) dfun)"

subsection \<open>Coverage tagger\<close>

text \<open>
  \<open>np.searchsorted(a, v, side='left')\<close> for one key: numpy's binary search. The library is
  not part of the repository; the loop is that of its \<open>binsearch\<close> for the left side.
\<close>

function binsearch_left :: "real list \<Rightarrow> real \<Rightarrow> nat \<Rightarrow> nat \<Rightarrow> nat" where
  "binsearch_left arr key min_idx max_idx =
     (if min_idx < max_idx then
        (let mid_idx = min_idx + (max_idx - min_idx) div 2
         in if arr ! mid_idx < key then binsearch_left arr key (mid_idx + 1) max_idx
            else binsearch_left arr key min_idx mid_idx)
      else min_idx)"
  by pat_completeness auto
termination
  by (relation "measure (\<lambda>(arr, key, min_idx, max_idx). max_idx - min_idx)") auto

declare binsearch_left.simps [simp del]

definition searchsorted :: "real list \<Rightarrow> real \<Rightarrow> nat" where
  "searchsorted a v = binsearch_left a v 0 (length a)"

text \<open>
  The search for a key computed in double arithmetic. Against an infinite key every
  comparison \<open>arr[mid_idx] < key\<close> of the loop has one outcome: false for \<open>-inf\<close>, so the search
  ends at 0, and true for \<open>inf\<close>, so it ends at the length; numpy orders \<open>nan\<close> after every
  number.
\<close>

fun searchsorted_key :: "real list \<Rightarrow> fval \<Rightarrow> nat" where
  "searchsorted_key a (Fin v) = searchsorted a v"
| "searchsorted_key a NInf = 0"
| "searchsorted_key a PInf = length a"
| "searchsorted_key a NaN = length a"

text \<open>
  The sample at one site: the mean of the four cells around the seed centre,
  \<open>(dfun[y_i, x_i] + dfun[y_i-1, x_i] + dfun[y_i, x_i-1] + dfun[y_i-1, x_i-1])/4.0\<close>,
  summed from left to right in double arithmetic. \<open>seed_x\<close> is the site's coordinate as it
  is, \<open>seed_y\<close> a computed double.
\<close>

definition dfun_site_at :: "fval matrix \<Rightarrow> real list \<Rightarrow> real list \<Rightarrow> real \<Rightarrow> fval \<Rightarrow> error + fval" where
  "dfun_site_at dfun coordx coordy seed_x seed_y =
     (let x_i = int (searchsorted coordx seed_x);
          y_i = int (searchsorted_key coordy seed_y)
      in case getitem2 dfun y_i x_i of Inl e \<Rightarrow> Inl e | Inr a \<Rightarrow>
         (case getitem2 dfun (y_i - 1) x_i of Inl e \<Rightarrow> Inl e | Inr b \<Rightarrow>
         (case getitem2 dfun y_i (x_i - 1) of Inl e \<Rightarrow> Inl e | Inr c \<Rightarrow>
         (case getitem2 dfun (y_i - 1) (x_i - 1) of Inl e \<Rightarrow> Inl e | Inr d \<Rightarrow>
            Inr (ddiv (dadd (dadd (dadd a b) c) d) 4)))))"

text \<open>
  The loop over \<open>enumerate(zip(x_sites, y_sites))\<close>, for site arrays of element type
  \<open>sites_dtype\<close>. \<open>seed_y = htr_points_xy[1] + seed_height\<close> is a sum of doubles.
  \<open>dfun_sites[i] = dfun_site\<close> stores the sample in an array of that type;
  the test \<open>dfun_site < 0\<close> reads the sample itself. The counters are mutated in place and
  returned; \<open>liquid_cover_iters[i]\<close> raises when the counter array is too short, and
  \<open>liquid_cover_iters[i] += 1\<close> wraps around on \<open>int64\<close>.
\<close>

fun tag_loop ::
  "dtype \<Rightarrow> fval matrix \<Rightarrow> real list \<Rightarrow> real list \<Rightarrow> fval \<Rightarrow> nat \<Rightarrow> (real \<times> real) list \<Rightarrow>
   fval list \<Rightarrow> int list \<Rightarrow> error + (fval list \<times> int list)" where
  "tag_loop sites_dtype dfun coordx coordy seed_height i [] dfun_sites liquid_cover_iters =
     Inr (dfun_sites, liquid_cover_iters)"
| "tag_loop sites_dtype dfun coordx coordy seed_height i (htr_points_xy # rest) dfun_sites
     liquid_cover_iters =
     (let seed_x = fst htr_points_xy;
          seed_y = dadd (Fin (snd htr_points_xy)) seed_height
      in case dfun_site_at dfun coordx coordy seed_x seed_y of
           Inl e \<Rightarrow> Inl e
         | Inr dfun_site \<Rightarrow>
             (case setitem_value sites_dtype dfun_site of
                Inl e \<Rightarrow> Inl e
              | Inr stored \<Rightarrow>
                  if i < length liquid_cover_iters then
                    tag_loop sites_dtype dfun coordx coordy seed_height (i + 1) rest
                      (dfun_sites[i := stored])
                      (if fneg dfun_site
                       then liquid_cover_iters[i := wrap_int64 (liquid_cover_iters ! i + 1)]
                       else liquid_cover_iters[i := 0])
                  else Inl IndexError))"

definition tag_renucleation_dtype ::
  "dtype \<Rightarrow> real list \<Rightarrow> real list \<Rightarrow> fval matrix \<Rightarrow> real list \<Rightarrow> real list \<Rightarrow> real \<Rightarrow>
   int list \<Rightarrow> error + (fval list \<times> int list)" where
  "tag_renucleation_dtype sites_dtype x_sites y_sites dfun coordx coordy seed_radius
     liquid_cover_iters =
     (let dfun_sites = map (\<lambda>_. Fin 0) x_sites;
          seed_height = dmul (Fin seed_radius) (Fin cos_pi_4)
      in tag_loop sites_dtype dfun coordx coordy seed_height 0 (zip x_sites y_sites)
           dfun_sites liquid_cover_iters)"

text \<open>
  The tagger on \<open>float64\<close> site arrays, which is how the module builds them
  (\<open>heater_init\<close>, and the arrays of its demonstration).
\<close>

definition tag_renucleation ::
  "real list \<Rightarrow> real list \<Rightarrow> fval matrix \<Rightarrow> real list \<Rightarrow> real list \<Rightarrow> real \<Rightarrow> int list \<Rightarrow>
   error + (fval list \<times> int list)" where
  "tag_renucleation = tag_renucleation_dtype Float64"

subsection \<open>Renucleation trigger\<close>

text \<open>
  The loop over \<open>enumerate(zip(x_sites, y_sites))\<close>. The condition
  \<open>dfun_sites[i] < 0 and liquid_cover_iters[i] >= 4\<close> reads the counter only when the
  sample is negative.
\<close>

fun renucleate_loop ::
  "real matrix \<Rightarrow> real matrix \<Rightarrow> fval list \<Rightarrow> real \<Rightarrow> real \<Rightarrow> real \<Rightarrow> nat \<Rightarrow>
   (real \<times> real) list \<Rightarrow> fval matrix \<Rightarrow> int list \<Rightarrow> error + (fval matrix \<times> int list)" where
  "renucleate_loop x_grid y_grid dfun_sites dfun_scale seed_radius seed_height i []
     curr_dfun liquid_cover_iters = Inr (curr_dfun, liquid_cover_iters)"
| "renucleate_loop x_grid y_grid dfun_sites dfun_scale seed_radius seed_height i
     (htr_points_xy # rest) curr_dfun liquid_cover_iters =
     (if i < length dfun_sites then
        if fneg (dfun_sites ! i) then
          if i < length liquid_cover_iters then
            if 4 \<le> liquid_cover_iters ! i then
              (let seed_x = fst htr_points_xy;
                   seed_y = snd htr_points_xy + seed_height;
                   interim = interim_dfun x_grid y_grid seed_x seed_y seed_radius;
                   interim' = map (map (\<lambda>v. fdiv (Fin v) dfun_scale)) interim
               in renucleate_loop x_grid y_grid dfun_sites dfun_scale seed_radius seed_height
                    (i + 1) rest (maximum curr_dfun interim') (liquid_cover_iters[i := 0]))
            else renucleate_loop x_grid y_grid dfun_sites dfun_scale seed_radius seed_height
                   (i + 1) rest curr_dfun liquid_cover_iters
          else Inl IndexError
        else renucleate_loop x_grid y_grid dfun_sites dfun_scale seed_radius seed_height
               (i + 1) rest curr_dfun liquid_cover_iters
      else Inl IndexError)"

definition renucleate ::
  "real matrix \<Rightarrow> real matrix \<Rightarrow> real list \<Rightarrow> real list \<Rightarrow> fval list \<Rightarrow> int list \<Rightarrow>
   fval matrix \<Rightarrow> real \<Rightarrow> real \<Rightarrow> error + (fval matrix \<times> int list)" where
  "renucleate x_grid y_grid x_sites y_sites dfun_sites liquid_cover_iters curr_dfun
     dfun_scale seed_radius =
     (let seed_height = seed_radius * cos (pi / 4)
      in renucleate_loop x_grid y_grid dfun_sites dfun_scale seed_radius seed_height 0
           (zip x_sites y_sites) curr_dfun liquid_cover_iters)"

subsection \<open>The vocabulary of the specification\<close>

text \<open>The Euclidean distance between two points of the plane.\<close>

definition euclidean_distance :: "real \<times> real \<Rightarrow> real \<times> real \<Rightarrow> real" where
  "euclidean_distance p q = sqrt ((fst p - fst q)\<^sup>2 + (snd p - snd q)\<^sup>2)"

text \<open>
  The trigger condition of a site, \<open>dfun_sites[i] < 0 and liquid_cover_iters[i] >= 4\<close>, and
  the seed of a site divided by \<open>dfun_scale\<close>, as \<open>renucleate\<close> composes it into the field.
\<close>

definition triggered :: "fval list \<Rightarrow> int list \<Rightarrow> nat \<Rightarrow> bool" where
  "triggered dfun_sites liquid_cover_iters i =
     (fneg (dfun_sites ! i) \<and> 4 \<le> liquid_cover_iters ! i)"

definition scaled_seed :: "real matrix \<Rightarrow> real matrix \<Rightarrow> real \<Rightarrow> real \<Rightarrow> real \<Rightarrow> real \<times> real \<Rightarrow> fval matrix" where
  "scaled_seed x_grid y_grid seed_radius seed_height dfun_scale site =
     map (map (\<lambda>v. fdiv (Fin v) dfun_scale))
       (interim_dfun x_grid y_grid (fst site) (snd site + seed_height) seed_radius)"

text \<open>
  The indices \<open>x_i\<close> and \<open>y_i\<close> that \<open>tag_renucleation\<close> computes for site \<open>i\<close>, and what it
  means for a read \<open>dfun[y, x]\<close> to be in bounds: both indices are positions of the array,
  not negative indices counted from its end.
\<close>

definition site_x_i :: "real list \<Rightarrow> real list \<Rightarrow> nat \<Rightarrow> nat" where
  "site_x_i coordx x_sites i = searchsorted coordx (x_sites ! i)"

definition site_y_i :: "real list \<Rightarrow> real list \<Rightarrow> real \<Rightarrow> nat \<Rightarrow> nat" where
  "site_y_i coordy y_sites seed_radius i =
     searchsorted_key coordy (dadd (Fin (y_sites ! i)) (dmul (Fin seed_radius) (Fin cos_pi_4)))"

definition in_bounds :: "'a matrix \<Rightarrow> int \<Rightarrow> int \<Rightarrow> bool" where
  "in_bounds m y x = (0 \<le> y \<and> y < int (length m) \<and> 0 \<le> x \<and> x < int (length (m ! nat y)))"




section \<open>Auxiliary facts\<close>

subsection \<open>Rounding to a double\<close>

lemma round_even_of_int [simp]: "round_even (of_int n) = n"
  by (simp add: round_even_def)

lemma round_even_bounds: "\<lfloor>t\<rfloor> \<le> round_even t \<and> round_even t \<le> \<lfloor>t\<rfloor> + 1"
  by (simp add: round_even_def Let_def)

lemma round_even_mono:
  assumes "s \<le> t"
  shows "round_even s \<le> round_even t"
proof (cases "\<lfloor>s\<rfloor> = \<lfloor>t\<rfloor>")
  case True
  then have "s - of_int \<lfloor>s\<rfloor> \<le> t - of_int \<lfloor>t\<rfloor>" using assms by simp
  then show ?thesis using True by (auto simp: round_even_def Let_def)
next
  case False
  with assms have "\<lfloor>s\<rfloor> < \<lfloor>t\<rfloor>" using floor_mono [OF assms] by linarith
  then have "\<lfloor>s\<rfloor> + 1 \<le> \<lfloor>t\<rfloor>" by simp
  with round_even_bounds [of s] round_even_bounds [of t] show ?thesis by linarith
qed

lemma round_even_ge: "of_int n \<le> t \<Longrightarrow> n \<le> round_even t"
  using round_even_mono [of "of_int n" t] by simp

lemma round_even_le: "t \<le> of_int n \<Longrightarrow> round_even t \<le> n"
  using round_even_mono [of t "of_int n"] by simp

lemma double_ulp_pos [simp]: "0 < double_ulp a"
  by (simp add: double_ulp_def)

lemma double_ulp_neq_0 [simp]: "double_ulp a \<noteq> 0"
  by (simp add: double_ulp_def)

lemma double_ulp_nonneg [simp]: "0 \<le> double_ulp a"
  by (simp add: double_ulp_def)

lemma double_ulp_binade:
  assumes "2 powr of_int e \<le> a" and "a < 2 powr (of_int e + 1)" and "- 1022 \<le> e"
  shows "double_ulp a = 2 powr (of_int e - 52)"
proof -
  have "(0::real) < 2 powr of_int e" by simp
  then have "0 < a" using assms(1) by linarith
  then have "\<lfloor>log 2 a\<rfloor> = e"
    using assms(1,2) by (simp add: floor_log_eq_powr_iff)
  with assms(3) show ?thesis by (simp add: double_ulp_def double_exp_def)
qed

lemma two_powr_53: "(2::real) ^ 53 * 2 powr (x - 52) = 2 powr (x + 1)"
  using powr_add [of 2 53 "x - 52"] by (simp add: add.commute)

lemma two_powr_52: "(2::real) ^ 52 * 2 powr (x - 52) = 2 powr x"
  using powr_add [of 2 52 "x - 52"] by simp

lemma two_powr_53_plus: "(2::real) ^ 53 * 2 powr x = 2 powr (x + 53)"
  using powr_add [of "2::real" 53 x] by (simp add: add.commute)

lemma double_exp_upper:
  assumes "0 < a"
  shows "a < 2 powr (of_int (double_exp a) + 1)"
proof -
  have "a < 2 powr (of_int \<lfloor>log 2 a\<rfloor> + 1)"
    using floor_log_eq_powr_iff [of a 2 "\<lfloor>log 2 a\<rfloor>"] assms by simp
  also have "\<dots> \<le> 2 powr (of_int (double_exp a) + 1)"
    by (simp add: double_exp_def)
  finally show ?thesis .
qed

lemma double_exp_lower:
  assumes "0 < a" and "- 1022 < double_exp a"
  shows "2 powr of_int (double_exp a) \<le> a"
proof -
  from assms(2) have "double_exp a = \<lfloor>log 2 a\<rfloor>" by (simp add: double_exp_def max_def split: if_splits)
  then show ?thesis
    using floor_log_eq_powr_iff [of a 2 "\<lfloor>log 2 a\<rfloor>"] assms(1) by simp
qed

lemma double_exp_mono:
  assumes "0 < a" and "a \<le> b"
  shows "double_exp a \<le> double_exp b"
proof -
  have "log 2 a \<le> log 2 b" using assms by simp
  then have "\<lfloor>log 2 a\<rfloor> \<le> \<lfloor>log 2 b\<rfloor>" by (rule floor_mono)
  then show ?thesis by (simp add: double_exp_def)
qed

lemma scaled_upper:
  assumes "0 < a"
  shows "a / double_ulp a < 2 ^ 53"
proof -
  have "a / double_ulp a < 2 powr (of_int (double_exp a) + 1) / double_ulp a"
    using double_exp_upper [OF assms] by (intro divide_strict_right_mono) simp_all
  also have "\<dots> = 2 ^ 53"
    using two_powr_53 [of "of_int (double_exp a)"] unfolding double_ulp_def
    by (simp add: field_simps)
  finally show ?thesis .
qed

lemma scaled_lower:
  assumes "0 < a" and "- 1022 < double_exp a"
  shows "2 ^ 52 \<le> a / double_ulp a"
proof -
  have "2 powr of_int (double_exp a) / double_ulp a \<le> a / double_ulp a"
    using double_exp_lower [OF assms] by (intro divide_right_mono) simp_all
  moreover have "2 powr of_int (double_exp a) / double_ulp a = 2 ^ 52"
    using two_powr_52 [of "of_int (double_exp a)"] unfolding double_ulp_def
    by (simp add: field_simps)
  ultimately show ?thesis by simp
qed


lemma double_mag_upper:
  assumes "0 < a"
  shows "double_mag a \<le> 2 powr (of_int (double_exp a) + 1)"
proof -
  have "round_even (a / double_ulp a) \<le> 2 ^ 53"
    using scaled_upper [OF assms] round_even_le [of "a / double_ulp a" "2 ^ 53"] by simp
  then have "(of_int (round_even (a / double_ulp a)) :: real) \<le> 2 ^ 53"
    by (metis of_int_le_iff of_int_numeral of_int_power)
  then have "double_mag a \<le> 2 ^ 53 * double_ulp a"
    unfolding double_mag_def by (simp add: mult_right_mono)
  also have "\<dots> = 2 powr (of_int (double_exp a) + 1)"
    unfolding double_ulp_def by (rule two_powr_53)
  finally show ?thesis .
qed

lemma double_mag_lower:
  assumes "0 < a" and "- 1022 < double_exp a"
  shows "2 powr of_int (double_exp a) \<le> double_mag a"
proof -
  have "2 ^ 52 \<le> round_even (a / double_ulp a)"
    using scaled_lower [OF assms] round_even_ge [of "2 ^ 52" "a / double_ulp a"] by simp
  then have "(2 ^ 52 :: real) \<le> of_int (round_even (a / double_ulp a))"
    by (metis of_int_le_iff of_int_numeral of_int_power)
  then have "2 ^ 52 * double_ulp a \<le> double_mag a"
    unfolding double_mag_def by (simp add: mult_right_mono)
  moreover have "2 ^ 52 * double_ulp a = 2 powr of_int (double_exp a)"
    unfolding double_ulp_def by (rule two_powr_52)
  ultimately show ?thesis by simp
qed

lemma double_mag_mono:
  assumes "0 < a" and "a \<le> b"
  shows "double_mag a \<le> double_mag b"
proof -
  have b: "0 < b" using assms by simp
  have e: "double_exp a \<le> double_exp b" by (rule double_exp_mono [OF assms])
  show ?thesis
  proof (cases "double_exp a = double_exp b")
    case True
    then have u: "double_ulp a = double_ulp b" by (simp add: double_ulp_def)
    have "a / double_ulp b \<le> b / double_ulp b"
      using assms(2) by (intro divide_right_mono) simp_all
    then have "round_even (a / double_ulp b) \<le> round_even (b / double_ulp b)"
      by (rule round_even_mono)
    then show ?thesis unfolding double_mag_def u by (simp add: mult_right_mono)
  next
    case False
    with e have lt: "double_exp a + 1 \<le> double_exp b" by simp
    moreover have "- 1022 \<le> double_exp a" by (simp add: double_exp_def)
    ultimately have n: "- 1022 < double_exp b" by simp
    have "double_mag a \<le> 2 powr (of_int (double_exp a) + 1)" by (rule double_mag_upper [OF assms(1)])
    also have "\<dots> \<le> 2 powr of_int (double_exp b)"
    proof -
      have "(of_int (double_exp a) + 1 :: real) \<le> of_int (double_exp b)"
        using lt by (metis of_int_1 of_int_add of_int_le_iff)
      then show ?thesis by simp
    qed
    also have "\<dots> \<le> double_mag b" by (rule double_mag_lower [OF b n])
    finally show ?thesis .
  qed
qed


text \<open>A number with a significand of at most 53 bits and an exponent in range is a double.\<close>

lemma double_mag_exact:
  assumes "0 < m" and "m \<le> 2 ^ 53" and "- 1074 \<le> k"
  shows "double_mag (of_int m * 2 powr of_int k) = of_int m * 2 powr of_int k"
proof -
  let ?a = "of_int m * 2 powr of_int k :: real"
  let ?e = "double_exp ?a"
  have a: "0 < ?a" using assms(1) by simp
  have lo: "- 1022 \<le> ?e" by (simp add: double_exp_def)
  have mr: "(of_int m :: real) \<le> 2 ^ 53"
    using assms(2) by (metis of_int_le_iff of_int_numeral of_int_power)
  have up: "?e \<le> k + 53"
  proof -
    have "?a \<le> 2 ^ 53 * 2 powr of_int k" using mr by (simp add: mult_right_mono)
    also have "\<dots> = 2 powr (of_int k + 53)" by (rule two_powr_53_plus)
    finally have "log 2 ?a \<le> of_int k + 53"
      using a by (simp add: log_le_iff)
    then have "\<lfloor>log 2 ?a\<rfloor> \<le> k + 53"
      by (metis floor_of_int floor_mono of_int_add of_int_numeral)
    with assms(3) show ?thesis by (simp add: double_exp_def)
  qed
  have "2 powr of_int k / 2 powr (of_int ?e - 52) = (2::real) powr (of_int k - (of_int ?e - 52))"
    by (simp only: powr_diff)
  moreover have "of_int k - (of_int ?e - 52) = (of_int (k + 52 - ?e) :: real)" by simp
  ultimately have "2 powr of_int k / double_ulp ?a = (2::real) powr (of_int (k + 52 - ?e))"
    unfolding double_ulp_def by (simp only:)
  then have sc: "?a / double_ulp ?a = of_int m * 2 powr (of_int (k + 52 - ?e))"
    by (simp only: times_divide_eq_right [symmetric])
  have "\<exists>n. ?a / double_ulp ?a = of_int n"
  proof (cases "?e \<le> k + 52")
    case True
    then obtain j where j: "k + 52 - ?e = int j" using nonneg_int_cases [of "k + 52 - ?e"] by auto
    have "2 powr (of_int (k + 52 - ?e)) = (2::real) ^ j"
      unfolding j by (simp add: powr_realpow)
    then have "?a / double_ulp ?a = of_int (m * 2 ^ j)" unfolding sc by simp
    then show ?thesis by blast
  next
    case False
    with up have e: "?e = k + 53" by simp
    have "- 1022 < ?e" using e assms(3) by simp
    from double_exp_lower [OF a this] have "2 powr of_int (k + 53) \<le> ?a" unfolding e .
    moreover have "2 powr of_int (k + 53) = (2::real) ^ 53 * 2 powr of_int k"
      using two_powr_53_plus [of "of_int k"] by simp
    ultimately have "(2 ^ 53 :: real) \<le> of_int m" by simp
    with mr have m: "(of_int m :: real) = 2 ^ 53" by simp
    have h: "2 powr (of_int (k + 52 - ?e)) = (1 / 2 :: real)"
      unfolding e by (simp add: powr_minus_divide)
    have "?a / double_ulp ?a = of_int m * (1 / 2)" using sc h by (simp only:)
    also have "\<dots> = of_int (2 ^ 52)" using m by simp
    finally show ?thesis by blast
  qed
  then obtain n where n: "?a / double_ulp ?a = of_int n" by blast
  have "double_mag ?a = of_int n * double_ulp ?a"
    unfolding double_mag_def n by simp
  also have "\<dots> = ?a / double_ulp ?a * double_ulp ?a" unfolding n by simp
  also have "\<dots> = ?a" using double_ulp_pos [of ?a] by simp
  finally show ?thesis .
qed

lemma round_double_exact:
  assumes "\<bar>m\<bar> \<le> 2 ^ 53" and "- 1074 \<le> k" and "\<bar>of_int m * 2 powr of_int k\<bar> < (2 powr 1024 :: real)"
  shows "round_double (of_int m * 2 powr of_int k) = Fin (of_int m * 2 powr of_int k)"
proof (cases "m = 0")
  case True
  then show ?thesis by (simp add: round_double_def)
next
  case False
  let ?x = "of_int m * 2 powr of_int k :: real"
  have abs: "\<bar>?x\<bar> = of_int \<bar>m\<bar> * 2 powr of_int k" by (simp add: abs_mult)
  have "double_mag \<bar>?x\<bar> = \<bar>?x\<bar>"
    unfolding abs using False assms(1,2) by (intro double_mag_exact) simp_all
  moreover have "?x \<noteq> 0" using False by simp
  ultimately show ?thesis
    using assms(3) by (auto simp: round_double_def simp del: of_int_abs)
qed

lemma double_mag_dyadic:
  assumes "0 < a"
  shows "\<exists>m. 0 \<le> m \<and> m \<le> 2 ^ 53
           \<and> double_mag a = of_int m * 2 powr of_int (double_exp a - 52)"
proof -
  let ?m = "round_even (a / double_ulp a)"
  have "0 \<le> a / double_ulp a" using assms by (intro divide_nonneg_pos) simp_all
  then have "0 \<le> ?m" using round_even_ge [of 0 "a / double_ulp a"] by simp
  moreover have "?m \<le> 2 ^ 53"
    using scaled_upper [OF assms] round_even_le [of "a / double_ulp a" "2 ^ 53"] by simp
  moreover have "double_mag a = of_int ?m * 2 powr of_int (double_exp a - 52)"
    by (simp add: double_mag_def double_ulp_def)
  ultimately show ?thesis by blast
qed

lemma round_double_idem:
  assumes "round_double x = Fin y"
  shows "round_double y = Fin y"
proof (cases "x = 0")
  case True
  with assms show ?thesis by (simp add: round_double_def)
next
  case False
  then have a: "0 < \<bar>x\<bar>" by simp
  from assms False have fin: "double_mag \<bar>x\<bar> < 2 powr 1024"
    and y: "y = (if 0 < x then double_mag \<bar>x\<bar> else - double_mag \<bar>x\<bar>)"
    by (auto simp: round_double_def split: if_splits)
  from double_mag_dyadic [OF a] obtain m where
    m: "0 \<le> m" "m \<le> 2 ^ 53"
    and d: "double_mag \<bar>x\<bar> = of_int m * 2 powr of_int (double_exp \<bar>x\<bar> - 52)"
    by blast
  let ?k = "double_exp \<bar>x\<bar> - 52"
  let ?n = "if 0 < x then m else - m"
  have k: "- 1074 \<le> ?k" by (simp add: double_exp_def)
  have yn: "y = of_int ?n * 2 powr of_int ?k"
  proof (cases "0 < x")
    case True
    then have "y = double_mag \<bar>x\<bar>" and "?n = m" using y by (simp_all only: if_True)
    then show ?thesis using d by (simp only:)
  next
    case False
    then have "y = - double_mag \<bar>x\<bar>" and "?n = - m" using y by (simp_all only: if_False)
    then show ?thesis using d by (simp only: of_int_minus mult_minus_left)
  qed
  have n: "\<bar>?n\<bar> \<le> 2 ^ 53" using m by simp
  have "\<bar>of_int ?n * 2 powr of_int ?k\<bar> = double_mag \<bar>x\<bar>"
    using d m(1) by (simp add: abs_mult)
  with fin have "\<bar>of_int ?n * 2 powr of_int ?k\<bar> < (2 powr 1024 :: real)" by simp
  from round_double_exact [OF n k this] show ?thesis unfolding yn .
qed

lemma round_double_of_int:
  assumes "\<bar>n\<bar> \<le> 2 ^ 53"
  shows "round_double (of_int n) = Fin (of_int n)"
proof -
  have "\<bar>of_int n :: real\<bar> \<le> 2 ^ 53"
    using assms by (metis of_int_abs of_int_le_iff of_int_numeral of_int_power)
  moreover have "(2 ^ 53 :: real) < 2 powr 1024"
    using powr_less_mono [of 53 1024 "2::real"] by simp
  ultimately have "\<bar>of_int n * 2 powr of_int 0\<bar> < (2 powr 1024 :: real)" by simp
  from round_double_exact [OF assms _ this] show ?thesis by simp
qed

lemma round_double_overflow:
  assumes "2 powr 1024 \<le> a"
  shows "round_double a = PInf"
proof -
  have p: "(0::real) < 2 powr 1024" by (rule powr_gt_zero [THEN iffD2]) simp
  have a: "0 < a" using assms p by linarith
  have "double_mag (of_int 1 * 2 powr of_int 1024) = of_int 1 * 2 powr of_int 1024"
    by (rule double_mag_exact) simp_all
  then have "double_mag (2 powr 1024) = 2 powr 1024"
    by (simp only: of_int_1 mult_1 of_int_numeral)
  moreover have "double_mag (2 powr 1024) \<le> double_mag a"
    by (rule double_mag_mono [OF p assms])
  ultimately have "2 powr 1024 \<le> double_mag \<bar>a\<bar>" using a by (simp only: abs_of_pos)
  then show ?thesis using a unfolding round_double_def by (simp only: if_True if_False less_irrefl) auto
qed

lemma round_double_tie: "round_double (10 ^ 16 + 1) = Fin (10 ^ 16)"
proof -
  let ?a = "10 ^ 16 + 1 :: real"
  have "2 powr of_int 53 \<le> ?a" "?a < 2 powr (of_int 53 + 1)" by simp_all
  then have u: "double_ulp ?a = 2" using double_ulp_binade [of 53 ?a] by simp
  have f: "\<lfloor>?a / 2\<rfloor> = 5 * 10 ^ 15" by (simp add: floor_eq_iff)
  have "round_even (?a / 2) = 5 * 10 ^ 15"
    unfolding round_even_def Let_def f by simp
  then have "double_mag ?a = 10 ^ 16" unfolding double_mag_def u by simp
  moreover have "(10 ^ 16 :: real) < 2 powr 1024"
    using powr_less_mono [of 54 1024 "2::real"] by simp
  ultimately show ?thesis by (simp add: round_double_def)
qed

text \<open>Doubles met in the examples.\<close>

lemma round_double_0 [simp]: "round_double 0 = Fin 0"
  by (simp add: round_double_def)

lemma round_double_numeral:
  "(numeral n :: int) \<le> 2 ^ 53 \<Longrightarrow> round_double (numeral n) = Fin (numeral n)"
  using round_double_of_int [of "numeral n"] by simp

lemma round_double_neg_numeral:
  "(numeral n :: int) \<le> 2 ^ 53 \<Longrightarrow> round_double (- numeral n) = Fin (- numeral n)"
  using round_double_of_int [of "- numeral n"] by simp

lemma round_double_1 [simp]: "round_double 1 = Fin 1" "round_double (- 1) = Fin (- 1)"
  using round_double_of_int [of 1] round_double_of_int [of "- 1"] by simp_all

lemma small_below_overflow: "\<bar>x\<bar> \<le> 2 ^ 53 \<Longrightarrow> \<bar>x\<bar> < (2 powr 1024 :: real)"
  using powr_less_mono [of 53 1024 "2::real"] by simp

lemma round_double_seven_halves: "round_double (7 / 2) = Fin (7 / 2)"
proof -
  have v: "of_int 7 * 2 powr of_int (- 1) = (7 / 2 :: real)"
    by (simp add: powr_minus_divide)
  have "\<bar>of_int 7 * 2 powr of_int (- 1)\<bar> < (2 powr 1024 :: real)"
    unfolding v by (rule small_below_overflow) simp
  from round_double_exact [OF _ _ this] show ?thesis unfolding v by simp
qed

lemma round_double_minus_quarter: "round_double (- 1 / 4) = Fin (- 1 / 4)"
proof -
  have v: "of_int (- 1) * 2 powr of_int (- 2) = (- 1 / 4 :: real)"
    by (simp add: powr_minus_divide)
  have "\<bar>of_int (- 1) * 2 powr of_int (- 2)\<bar> < (2 powr 1024 :: real)"
    unfolding v by (rule small_below_overflow) simp
  from round_double_exact [OF _ _ this] show ?thesis unfolding v by simp
qed

lemma round_double_minus_three_quarters: "round_double (- 3 / 4) = Fin (- 3 / 4)"
proof -
  have v: "of_int (- 3) * 2 powr of_int (- 2) = (- 3 / 4 :: real)"
    by (simp add: powr_minus_divide)
  have "\<bar>of_int (- 3) * 2 powr of_int (- 2)\<bar> < (2 powr 1024 :: real)"
    unfolding v by (rule small_below_overflow) simp
  from round_double_exact [OF _ _ this] show ?thesis unfolding v by simp
qed

lemma round_even_near:
  assumes "of_int n - 1 / 2 < t" and "t < of_int n + 1 / 2"
  shows "round_even t = n"
proof -
  have "\<lfloor>t\<rfloor> = n \<or> \<lfloor>t\<rfloor> = n - 1" using assms by linarith
  then show ?thesis
  proof
    assume f: "\<lfloor>t\<rfloor> = n"
    then have "t - of_int \<lfloor>t\<rfloor> < 1 / 2" using assms by simp
    then show ?thesis using f by (simp add: round_even_def Let_def)
  next
    assume f: "\<lfloor>t\<rfloor> = n - 1"
    then have "1 / 2 < t - of_int \<lfloor>t\<rfloor>" using assms by simp
    then show ?thesis using f by (simp add: round_even_def Let_def)
  qed
qed

lemma sqrt2_scaled:
  "6369051672525773 - 1 / 2 < sqrt 2 * 2 ^ 52" "sqrt 2 * 2 ^ 52 < 6369051672525773 + 1 / 2"
proof -
  have s: "sqrt 2 * 2 ^ 52 = sqrt (2 ^ 105)"
  proof -
    have "sqrt (2 ^ 105) = sqrt (2 * (2 ^ 52)\<^sup>2)" by simp
    also have "\<dots> = sqrt 2 * 2 ^ 52" by (simp only: real_sqrt_mult real_sqrt_abs) simp
    finally show ?thesis by simp
  qed
  have "(6369051672525773 - 1 / 2 :: real)\<^sup>2 < 2 ^ 105" by (simp add: power2_eq_square)
  then have "6369051672525773 - 1 / 2 < sqrt (2 ^ 105)" by (rule real_less_rsqrt)
  then show "6369051672525773 - 1 / 2 < sqrt 2 * 2 ^ 52" unfolding s .
  have "(2 ^ 105 :: real) < (6369051672525773 + 1 / 2)\<^sup>2" by (simp add: power2_eq_square)
  then have "sqrt (2 ^ 105) < 6369051672525773 + 1 / 2" by (intro real_less_lsqrt) simp_all
  then show "sqrt 2 * 2 ^ 52 < 6369051672525773 + 1 / 2" unfolding s .
qed

text \<open>\<open>cos_pi_4\<close> is the cosine of 45 degrees rounded to a double.\<close>

lemma cos_pi_4_nearest: "round_double (cos (pi / 4)) = Fin cos_pi_4"
proof -
  let ?a = "sqrt 2 / 2 :: real"
  have c: "cos (pi / 4) = ?a" by (rule cos_45)
  have p: "0 < ?a" by simp
  have lo: "2 powr of_int (- 1) \<le> ?a"
  proof -
    have "1 \<le> sqrt 2" by simp
    then show ?thesis by (simp add: powr_minus_divide)
  qed
  have hi: "?a < 2 powr (of_int (- 1) + 1)"
    using sqrt2_less_2 by simp
  have u: "double_ulp ?a = 2 powr (- 53)"
    using double_ulp_binade [OF lo hi] by simp
  have u': "double_ulp ?a = 1 / 2 ^ 53"
    unfolding u using powr_minus_divide [of "2::real" 53] by simp
  have q: "?a / double_ulp ?a = sqrt 2 * 2 ^ 52" unfolding u' by simp
  have r: "round_even (?a / double_ulp ?a) = 6369051672525773"
    unfolding q
  proof (rule round_even_near)
    show "of_int 6369051672525773 - 1 / 2 < sqrt 2 * 2 ^ 52" using sqrt2_scaled(1) by simp
    show "sqrt 2 * 2 ^ 52 < of_int 6369051672525773 + 1 / 2" using sqrt2_scaled(2) by simp
  qed
  have "double_mag ?a = of_int 6369051672525773 * double_ulp ?a"
    unfolding double_mag_def r ..
  then have m: "double_mag ?a = cos_pi_4"
    unfolding u' cos_pi_4_def by simp
  have "cos_pi_4 < 1" by (simp add: cos_pi_4_def)
  also have "(1::real) \<le> 2 powr 1024" by simp
  finally have b: "\<not> 2 powr 1024 \<le> cos_pi_4" by simp
  have a: "\<bar>?a\<bar> = ?a" using p by simp
  show ?thesis unfolding c round_double_def a m using p b by simp
qed

lemma quarter_cos_pi_4: "round_double (1 / 4 * cos_pi_4) = Fin (6369051672525773 / 2 ^ 55)"
proof -
  have v: "of_int 6369051672525773 * 2 powr of_int (- 55) = (6369051672525773 / 2 ^ 55 :: real)"
    using powr_minus_divide [of "2::real" 55] by simp
  have "\<bar>of_int 6369051672525773 * 2 powr of_int (- 55)\<bar> < (2 powr 1024 :: real)"
    unfolding v by (rule small_below_overflow) simp
  from round_double_exact [OF _ _ this]
  have "round_double (6369051672525773 / 2 ^ 55) = Fin (6369051672525773 / 2 ^ 55)"
    unfolding v by simp
  moreover have "1 / 4 * cos_pi_4 = 6369051672525773 / 2 ^ 55" by (simp add: cos_pi_4_def)
  ultimately show ?thesis by (simp only:)
qed


lemma round_double_not_NaN [simp]: "round_double x \<noteq> NaN"
  by (simp add: round_double_def)



subsection \<open>Fields and their shapes\<close>

lemma fmaximum_NInf_left [simp]: "fmaximum NInf b = b"
  by (cases b) simp_all

lemma fmaximum_NInf_right [simp]: "fmaximum a NInf = a"
  by (cases a) simp_all

lemma same_shape_nth:
  "same_shape a b \<Longrightarrow> length a = length b \<and> (\<forall>i < length a. length (a ! i) = length (b ! i))"
  unfolding same_shape_def shape_def
  by (metis map_eq_imp_length_eq nth_map)

lemma shape_maximum: "same_shape a b \<Longrightarrow> shape (maximum a b) = shape a"
proof -
  assume s: "same_shape a b"
  then have l: "length a = length b"
    unfolding same_shape_def shape_def by (rule map_eq_imp_length_eq)
  have r: "length (a ! i) = length (b ! i)" if "i < length a" for i
    using s that l unfolding same_shape_def shape_def
    by (metis nth_map)
  show ?thesis
    unfolding shape_def maximum_def using l r
    by (auto intro!: nth_equalityI)
qed

lemma nth_maximum:
  assumes "same_shape a b" "i < length a" "j < length (a ! i)"
  shows "maximum a b ! i ! j = fmaximum (a ! i ! j) (b ! i ! j)"
  using assms same_shape_nth [OF assms(1)] by (simp add: maximum_def)

lemma shape_interim_dfun:
  "same_shape x_grid y_grid \<Longrightarrow> shape (interim_dfun x_grid y_grid sx sy r) = shape x_grid"
  using same_shape_nth [of x_grid y_grid]
  unfolding shape_def interim_dfun_def by (auto intro!: nth_equalityI)

lemma nth_interim_dfun:
  assumes "same_shape x_grid y_grid" "i < length x_grid" "j < length (x_grid ! i)"
  shows "interim_dfun x_grid y_grid sx sy r ! i ! j
         = r - euclidean_distance (x_grid ! i ! j, y_grid ! i ! j) (sx, sy)"
  using assms same_shape_nth [OF assms(1)]
  by (simp add: interim_dfun_def euclidean_distance_def)

lemma matrix_eqI:
  assumes "shape a = shape b"
    and "\<And>i j. i < length a \<Longrightarrow> j < length (a ! i) \<Longrightarrow> a ! i ! j = b ! i ! j"
  shows "a = b"
proof (rule nth_equalityI)
  show l: "length a = length b" using assms(1) unfolding shape_def by (rule map_eq_imp_length_eq)
  fix i assume i: "i < length a"
  have "length (a ! i) = length (b ! i)"
    using assms(1) i l unfolding shape_def by (metis nth_map)
  then show "a ! i = b ! i" using assms(2) [OF i] by (auto intro: nth_equalityI)
qed

lemma shape_map_map [simp]: "shape (map (map f) m) = shape m"
  by (simp add: shape_def)



subsection \<open>The loop of \<open>dfun_init\<close>\<close>

lemma dfun_init_loop_shape:
  "same_shape x_grid y_grid \<Longrightarrow> shape dfun = shape x_grid \<Longrightarrow>
   shape (dfun_init_loop x_grid y_grid r h sites dfun) = shape x_grid"
proof (induction sites arbitrary: dfun)
  case Nil
  then show ?case by simp
next
  case (Cons s sites)
  have "same_shape dfun (map (map Fin) (interim_dfun x_grid y_grid (fst s) (snd s + h) r))"
    using Cons.prems by (simp add: same_shape_def shape_interim_dfun)
  then have "shape (maximum dfun (map (map Fin) (interim_dfun x_grid y_grid (fst s) (snd s + h) r)))
             = shape x_grid"
    using Cons.prems(2) by (simp add: shape_maximum)
  then show ?case using Cons.IH [OF Cons.prems(1)] by (simp add: Let_def)
qed

lemma dfun_init_loop_nth:
  "same_shape x_grid y_grid \<Longrightarrow> shape dfun = shape x_grid \<Longrightarrow>
   i < length x_grid \<Longrightarrow> j < length (x_grid ! i) \<Longrightarrow>
   dfun_init_loop x_grid y_grid r h sites dfun ! i ! j
   = foldl fmaximum (dfun ! i ! j)
       (map (\<lambda>s. Fin (r - euclidean_distance (x_grid ! i ! j, y_grid ! i ! j) (fst s, snd s + h))) sites)"
proof (induction sites arbitrary: dfun)
  case Nil
  then show ?case by simp
next
  case (Cons s sites)
  let ?I = "map (map Fin) (interim_dfun x_grid y_grid (fst s) (snd s + h) r)"
  have ss: "same_shape dfun ?I"
    using Cons.prems by (simp add: same_shape_def shape_interim_dfun)
  then have sh: "shape (maximum dfun ?I) = shape x_grid"
    using Cons.prems(2) by (simp add: shape_maximum)
  have li: "i < length dfun" "j < length (dfun ! i)"
    using Cons.prems(2,3,4) same_shape_nth [of dfun x_grid] by (simp_all add: same_shape_def)
  have lI: "i < length (interim_dfun x_grid y_grid (fst s) (snd s + h) r)"
    "j < length (interim_dfun x_grid y_grid (fst s) (snd s + h) r ! i)"
    using shape_interim_dfun [OF Cons.prems(1), of "fst s" "snd s + h" r] Cons.prems(3,4)
      same_shape_nth [of "interim_dfun x_grid y_grid (fst s) (snd s + h) r" x_grid]
    by (simp_all add: same_shape_def)
  have "maximum dfun ?I ! i ! j = fmaximum (dfun ! i ! j)
          (Fin (r - euclidean_distance (x_grid ! i ! j, y_grid ! i ! j) (fst s, snd s + h)))"
    using nth_maximum [OF ss li] lI nth_interim_dfun [OF Cons.prems(1,3,4)] by simp
  then show ?case
    using Cons.IH [OF Cons.prems(1) sh Cons.prems(3,4)] by (simp add: Let_def)
qed



subsection \<open>The loop of \<open>renucleate\<close>\<close>





lemma renucleate_loop_char:
  assumes "i + length sites \<le> length dfun_sites" and "i + length sites \<le> length lci"
  shows "\<exists>lci'. renucleate_loop x_grid y_grid dfun_sites dfun_scale r h i sites D lci
           = Inr (foldl maximum D
                    (map (\<lambda>p. scaled_seed x_grid y_grid r h dfun_scale (snd p))
                       (filter (\<lambda>p. triggered dfun_sites lci (fst p)) (enumerate i sites))),
                  lci')
         \<and> length lci' = length lci
         \<and> (\<forall>k < length lci. lci' ! k =
               (if i \<le> k \<and> k < i + length sites \<and> triggered dfun_sites lci k then 0 else lci ! k))"
  using assms
proof (induction sites arbitrary: i D lci)
  case Nil
  then show ?case by simp
next
  case (Cons s rest)
  have i: "i < length dfun_sites" "i < length lci" using Cons.prems by simp_all
  have len: "Suc i + length rest \<le> length dfun_sites" using Cons.prems by simp
  show ?case
  proof (cases "triggered dfun_sites lci i")
    case True
    let ?lci = "lci[i := 0]"
    let ?D = "maximum D (scaled_seed x_grid y_grid r h dfun_scale s)"
    have len': "Suc i + length rest \<le> length ?lci" using Cons.prems by simp
    from Cons.IH [OF len len', of ?D] obtain lci' where
      run: "renucleate_loop x_grid y_grid dfun_sites dfun_scale r h (Suc i) rest ?D ?lci
           = Inr (foldl maximum ?D
                    (map (\<lambda>p. scaled_seed x_grid y_grid r h dfun_scale (snd p))
                       (filter (\<lambda>p. triggered dfun_sites ?lci (fst p)) (enumerate (Suc i) rest))),
                  lci')"
      and l: "length lci' = length ?lci"
      and c: "\<forall>k < length ?lci. lci' ! k =
               (if Suc i \<le> k \<and> k < Suc i + length rest \<and> triggered dfun_sites ?lci k
                then 0 else ?lci ! k)"
      by blast
    have same: "triggered dfun_sites ?lci k = triggered dfun_sites lci k" if "k \<noteq> i" for k
      using that by (simp add: triggered_def)
    have f: "filter (\<lambda>p. triggered dfun_sites ?lci (fst p)) (enumerate (Suc i) rest)
           = filter (\<lambda>p. triggered dfun_sites lci (fst p)) (enumerate (Suc i) rest)"
      by (rule filter_cong [OF refl]) (auto simp: in_set_enumerate_eq same)
    have step: "renucleate_loop x_grid y_grid dfun_sites dfun_scale r h i (s # rest) D lci
              = renucleate_loop x_grid y_grid dfun_sites dfun_scale r h (Suc i) rest ?D ?lci"
      using True i by (simp add: triggered_def scaled_seed_def Let_def)
    have "\<forall>k < length lci. lci' ! k =
            (if i \<le> k \<and> k < i + length (s # rest) \<and> triggered dfun_sites lci k then 0 else lci ! k)"
    proof (intro allI impI)
      fix k assume k: "k < length lci"
      show "lci' ! k =
            (if i \<le> k \<and> k < i + length (s # rest) \<and> triggered dfun_sites lci k then 0 else lci ! k)"
      proof (cases "k = i")
        case True
        with c k \<open>triggered dfun_sites lci i\<close> show ?thesis by simp
      next
        case False
        with c k same [OF False] show ?thesis by auto
      qed
    qed
    with run l f step True show ?thesis by simp
  next
    case False
    have len': "Suc i + length rest \<le> length lci" using Cons.prems by simp
    from Cons.IH [OF len len', of D] obtain lci' where
      run: "renucleate_loop x_grid y_grid dfun_sites dfun_scale r h (Suc i) rest D lci
           = Inr (foldl maximum D
                    (map (\<lambda>p. scaled_seed x_grid y_grid r h dfun_scale (snd p))
                       (filter (\<lambda>p. triggered dfun_sites lci (fst p)) (enumerate (Suc i) rest))),
                  lci')"
      and l: "length lci' = length lci"
      and c: "\<forall>k < length lci. lci' ! k =
               (if Suc i \<le> k \<and> k < Suc i + length rest \<and> triggered dfun_sites lci k
                then 0 else lci ! k)"
      by blast
    have step: "renucleate_loop x_grid y_grid dfun_sites dfun_scale r h i (s # rest) D lci
              = renucleate_loop x_grid y_grid dfun_sites dfun_scale r h (Suc i) rest D lci"
      using False i by (auto simp add: triggered_def)
    have "\<forall>k < length lci. lci' ! k =
            (if i \<le> k \<and> k < i + length (s # rest) \<and> triggered dfun_sites lci k then 0 else lci ! k)"
    proof (intro allI impI)
      fix k assume k: "k < length lci"
      show "lci' ! k =
            (if i \<le> k \<and> k < i + length (s # rest) \<and> triggered dfun_sites lci k then 0 else lci ! k)"
      proof (cases "k = i")
        case True
        with c k False show ?thesis by simp
      next
        case False
        with c k show ?thesis by auto
      qed
    qed
    with run l step False show ?thesis by simp
  qed
qed

subsection \<open>Binary search and indexing\<close>

lemma binsearch_left_bounds:
  "min_idx \<le> max_idx \<Longrightarrow>
   min_idx \<le> binsearch_left arr key min_idx max_idx
   \<and> binsearch_left arr key min_idx max_idx \<le> max_idx"
proof (induction arr key min_idx max_idx rule: binsearch_left.induct)
  case (1 arr key min_idx max_idx)
  show ?case
  proof (cases "min_idx < max_idx")
    case False
    with "1.prems" show ?thesis by (simp add: binsearch_left.simps)
  next
    case True
    let ?mid = "min_idx + (max_idx - min_idx) div 2"
    have m: "min_idx \<le> ?mid" "?mid < max_idx" using True by simp_all
    show ?thesis
    proof (cases "arr ! ?mid < key")
      case lt: True
      from "1.IH"(1) [OF True refl lt] m
      have "?mid + 1 \<le> binsearch_left arr key (?mid + 1) max_idx
            \<and> binsearch_left arr key (?mid + 1) max_idx \<le> max_idx" by simp
      moreover have "binsearch_left arr key min_idx max_idx
                   = binsearch_left arr key (?mid + 1) max_idx"
        using True lt by (subst binsearch_left.simps) (simp add: Let_def)
      ultimately show ?thesis by simp
    next
      case ge: False
      from "1.IH"(2) [OF True refl ge] m
      have "min_idx \<le> binsearch_left arr key min_idx ?mid
            \<and> binsearch_left arr key min_idx ?mid \<le> ?mid" by simp
      moreover have "binsearch_left arr key min_idx max_idx
                   = binsearch_left arr key min_idx ?mid"
        using True ge by (subst binsearch_left.simps) (simp add: Let_def)
      ultimately show ?thesis using m by simp
    qed
  qed
qed

lemma searchsorted_le_length: "searchsorted a v \<le> length a"
  using binsearch_left_bounds [of 0 "length a" a v] by (simp add: searchsorted_def)

text \<open>On a sorted array the search returns the left insertion point.\<close>

lemma binsearch_left_sorted:
  assumes "sorted arr" and "min_idx \<le> max_idx" and "max_idx \<le> length arr"
    and "\<forall>k < min_idx. arr ! k < key" and "\<forall>k. max_idx \<le> k \<and> k < length arr \<longrightarrow> key \<le> arr ! k"
  shows "(\<forall>k < binsearch_left arr key min_idx max_idx. arr ! k < key)
       \<and> (\<forall>k. binsearch_left arr key min_idx max_idx \<le> k \<and> k < length arr \<longrightarrow> key \<le> arr ! k)"
  using assms
proof (induction arr key min_idx max_idx rule: binsearch_left.induct)
  case (1 arr key min_idx max_idx)
  show ?case
  proof (cases "min_idx < max_idx")
    case False
    with "1.prems" have "min_idx = max_idx" by simp
    with "1.prems" False show ?thesis by (simp add: binsearch_left.simps)
  next
    case True
    let ?mid = "min_idx + (max_idx - min_idx) div 2"
    have m: "min_idx \<le> ?mid" "?mid < max_idx" using True by simp_all
    show ?thesis
    proof (cases "arr ! ?mid < key")
      case lt: True
      have below: "\<forall>k < ?mid + 1. arr ! k < key"
      proof (intro allI impI)
        fix k assume "k < ?mid + 1"
        then have "k \<le> ?mid" by simp
        with "1.prems"(1,3) m have "arr ! k \<le> arr ! ?mid"
          by (intro sorted_nth_mono) simp_all
        with lt show "arr ! k < key" by simp
      qed
      have eq: "binsearch_left arr key min_idx max_idx
              = binsearch_left arr key (?mid + 1) max_idx"
        using True lt by (subst binsearch_left.simps) (simp add: Let_def)
      from "1.IH"(1) [OF True refl lt "1.prems"(1) _ "1.prems"(3) below "1.prems"(5)] m
      show ?thesis unfolding eq by simp
    next
      case ge: False
      have above: "\<forall>k. ?mid \<le> k \<and> k < length arr \<longrightarrow> key \<le> arr ! k"
      proof (intro allI impI)
        fix k assume "?mid \<le> k \<and> k < length arr"
        with "1.prems"(1) have "arr ! ?mid \<le> arr ! k"
          by (intro sorted_nth_mono) simp_all
        with ge show "key \<le> arr ! k" by simp
      qed
      have eq: "binsearch_left arr key min_idx max_idx
              = binsearch_left arr key min_idx ?mid"
        using True ge by (subst binsearch_left.simps) (simp add: Let_def)
      from "1.IH"(2) [OF True refl ge "1.prems"(1) m(1) _ "1.prems"(4) above] m "1.prems"(3)
      show ?thesis unfolding eq by simp
    qed
  qed
qed

lemma searchsorted_sorted:
  assumes "sorted a"
  shows "(\<forall>k < searchsorted a v. a ! k < v)
       \<and> (\<forall>k. searchsorted a v \<le> k \<and> k < length a \<longrightarrow> v \<le> a ! k)"
  unfolding searchsorted_def
  using binsearch_left_sorted [OF assms, of 0 "length a" v] by simp

lemma getitem_in_range:
  "0 \<le> i \<Longrightarrow> i < int (length a) \<Longrightarrow> getitem a i = Inr (a ! nat i)"
  by (simp add: getitem_def)

lemma getitem_minus_one:
  "a \<noteq> [] \<Longrightarrow> getitem a (- 1) = Inr (a ! (length a - 1))"
  by (cases a) (simp_all add: getitem_def nat_add_distrib)

lemma getitem_pred:
  "i < length a \<Longrightarrow>
   getitem a (int i - 1) = Inr (if i = 0 then a ! (length a - 1) else a ! (i - 1))"
proof (cases i)
  case 0
  assume "i < length a"
  with 0 have "a \<noteq> []" by auto
  with 0 getitem_minus_one [of a] show ?thesis by simp
next
  case (Suc k)
  assume "i < length a"
  with Suc show ?thesis by (simp add: getitem_def)
qed

lemma getitem2_rect:
  assumes "shape dfun = replicate ny nx" and "y < ny" and "x < nx"
  shows "getitem2 dfun (int y) (int x) = Inr (dfun ! y ! x)"
    and "getitem2 dfun (int y - 1) (int x)
         = Inr (dfun ! (if y = 0 then ny - 1 else y - 1) ! x)"
    and "getitem2 dfun (int y) (int x - 1)
         = Inr (dfun ! y ! (if x = 0 then nx - 1 else x - 1))"
    and "getitem2 dfun (int y - 1) (int x - 1)
         = Inr (dfun ! (if y = 0 then ny - 1 else y - 1) ! (if x = 0 then nx - 1 else x - 1))"
proof -
  have ny: "length dfun = ny"
    using assms(1) unfolding shape_def by (metis length_map length_replicate)
  have row: "length (dfun ! k) = nx" if "k < ny" for k
    using assms(1) that ny unfolding shape_def by (metis nth_map nth_replicate)
  let ?y' = "if y = 0 then ny - 1 else y - 1"
  have y': "?y' < ny" using assms(2) by auto
  have gy: "getitem dfun (int y) = Inr (dfun ! y)"
    using getitem_in_range [of "int y" dfun] assms(2) ny by simp
  have gy': "getitem dfun (int y - 1) = Inr (dfun ! ?y')"
    using getitem_pred [of y dfun] assms(2) ny by simp
  have gx: "getitem (dfun ! k) (int x) = Inr (dfun ! k ! x)" if "k < ny" for k
    using getitem_in_range [of "int x" "dfun ! k"] assms(3) row [OF that] by simp
  have gx': "getitem (dfun ! k) (int x - 1)
           = Inr (dfun ! k ! (if x = 0 then nx - 1 else x - 1))" if "k < ny" for k
    using getitem_pred [of x "dfun ! k"] assms(3) row [OF that] by simp
  show "getitem2 dfun (int y) (int x) = Inr (dfun ! y ! x)"
    unfolding getitem2_def gy using gx [OF assms(2)] by simp
  show "getitem2 dfun (int y - 1) (int x) = Inr (dfun ! ?y' ! x)"
    unfolding getitem2_def gy' using gx [OF y'] by simp
  show "getitem2 dfun (int y) (int x - 1) = Inr (dfun ! y ! (if x = 0 then nx - 1 else x - 1))"
    unfolding getitem2_def gy using gx' [OF assms(2)] by simp
  show "getitem2 dfun (int y - 1) (int x - 1)
        = Inr (dfun ! ?y' ! (if x = 0 then nx - 1 else x - 1))"
    unfolding getitem2_def gy' using gx' [OF y'] by simp
qed

lemma dfun_site_at_rect:
  assumes "shape dfun = replicate (length coordy) (length coordx)"
    and "searchsorted coordx seed_x < length coordx"
    and "searchsorted_key coordy seed_y < length coordy"
  shows "\<exists>v. dfun_site_at dfun coordx coordy seed_x seed_y = Inr v"
  unfolding dfun_site_at_def Let_def
  using getitem2_rect [OF assms(1,3,2)] by simp

lemma mean_of_four_exact:
  assumes "round_double (a + b) = Fin (a + b)"
    and "round_double (a + b + c) = Fin (a + b + c)"
    and "round_double (a + b + c + d) = Fin (a + b + c + d)"
    and "round_double ((a + b + c + d) / 4) = Fin ((a + b + c + d) / 4)"
  shows "ddiv (dadd (dadd (dadd (Fin a) (Fin b)) (Fin c)) (Fin d)) 4 = Fin ((a + b + c + d) / 4)"
  using assms by simp

lemma wrap_int64_in_range:
  "- (2 ^ 63) \<le> n \<Longrightarrow> n < 2 ^ 63 \<Longrightarrow> wrap_int64 n = n"
  by (simp add: wrap_int64_def)

subsection \<open>The loop of \<open>tag_renucleation\<close>\<close>

lemma tag_loop_char:
  assumes "tag_loop Float64 dfun coordx coordy h i sites ds lci = Inr (ds', lci')"
  shows "length ds' = length ds \<and> length lci' = length lci
       \<and> (\<forall>k < length sites. \<exists>v.
             dfun_site_at dfun coordx coordy (fst (sites ! k)) (dadd (Fin (snd (sites ! k))) h) = Inr v
           \<and> i + k < length lci
           \<and> (i + k < length ds \<longrightarrow> ds' ! (i + k) = v)
           \<and> lci' ! (i + k) = (if fneg v then wrap_int64 (lci ! (i + k) + 1) else 0))
       \<and> (\<forall>m < i. ds' ! m = ds ! m \<and> lci' ! m = lci ! m)"
  using assms
proof (induction sites arbitrary: i ds lci)
  case Nil
  then show ?case by simp
next
  case (Cons s rest)
  from Cons.prems obtain v where
    v: "dfun_site_at dfun coordx coordy (fst s) (dadd (Fin (snd s)) h) = Inr v"
    by (auto simp: Let_def split: sum.splits)
  define lci2 where "lci2 = (if fneg v then lci[i := wrap_int64 (lci ! i + 1)] else lci[i := 0])"
  from Cons.prems v have i: "i < length lci"
    by (auto simp: Let_def split: if_splits)
  have l2: "length lci2 = length lci" by (simp add: lci2_def)
  have o2: "lci2 ! m = lci ! m" if "m \<noteq> i" for m using that by (simp add: lci2_def)
  have i2: "lci2 ! i = (if fneg v then wrap_int64 (lci ! i + 1) else 0)"
    using i by (simp add: lci2_def)
  from Cons.prems v i have
    run: "tag_loop Float64 dfun coordx coordy h (Suc i) rest (ds[i := v]) lci2 = Inr (ds', lci')"
    by (simp add: Let_def lci2_def)
  note ih = Cons.IH [OF run]
  from ih l2 have l: "length ds' = length ds" "length lci' = length lci" by simp_all
  from ih have c: "\<forall>k < length rest. \<exists>w.
             dfun_site_at dfun coordx coordy (fst (rest ! k)) (dadd (Fin (snd (rest ! k))) h) = Inr w
           \<and> Suc i + k < length lci2
           \<and> (Suc i + k < length (ds[i := v]) \<longrightarrow> ds' ! (Suc i + k) = w)
           \<and> lci' ! (Suc i + k) = (if fneg w then wrap_int64 (lci2 ! (Suc i + k) + 1) else 0)"
    by blast
  from ih have f: "\<forall>m < Suc i. ds' ! m = ds[i := v] ! m \<and> lci' ! m = lci2 ! m"
    by blast
  have "\<exists>w. dfun_site_at dfun coordx coordy (fst ((s # rest) ! k)) (dadd (Fin (snd ((s # rest) ! k))) h) = Inr w
           \<and> i + k < length lci
           \<and> (i + k < length ds \<longrightarrow> ds' ! (i + k) = w)
           \<and> lci' ! (i + k) = (if fneg w then wrap_int64 (lci ! (i + k) + 1) else 0)"
    if k: "k < length (s # rest)" for k
  proof (cases k)
    case 0
    from f have "ds' ! i = ds[i := v] ! i" "lci' ! i = lci2 ! i" by simp_all
    with 0 v i i2 show ?thesis by simp
  next
    case (Suc k')
    with k have "k' < length rest" by simp
    with c obtain w where
      "dfun_site_at dfun coordx coordy (fst (rest ! k')) (dadd (Fin (snd (rest ! k'))) h) = Inr w"
      "Suc i + k' < length lci2"
      "Suc i + k' < length (ds[i := v]) \<longrightarrow> ds' ! (Suc i + k') = w"
      "lci' ! (Suc i + k') = (if fneg w then wrap_int64 (lci2 ! (Suc i + k') + 1) else 0)"
      by blast
    with Suc l2 o2 [of "Suc i + k'"] show ?thesis by (intro exI [of _ w]) simp
  qed
  moreover have "\<forall>m < i. ds' ! m = ds ! m \<and> lci' ! m = lci ! m"
    using f o2 by auto
  ultimately show ?case using l by simp
qed

lemma tag_loop_total:
  assumes "\<forall>s \<in> set sites. \<exists>v. dfun_site_at dfun coordx coordy (fst s) (dadd (Fin (snd s)) h) = Inr v"
    and "i + length sites \<le> length lci"
  shows "\<exists>res. tag_loop Float64 dfun coordx coordy h i sites ds lci = Inr res"
  using assms
proof (induction sites arbitrary: i ds lci)
  case Nil
  then show ?case by simp
next
  case (Cons s rest)
  from Cons.prems(1) obtain v where
    v: "dfun_site_at dfun coordx coordy (fst s) (dadd (Fin (snd s)) h) = Inr v" by auto
  let ?lci = "if fneg v then lci[i := wrap_int64 (lci ! i + 1)] else lci[i := 0]"
  have i: "i < length lci" and len: "Suc i + length rest \<le> length ?lci"
    using Cons.prems(2) by simp_all
  have "\<forall>s \<in> set rest. \<exists>v. dfun_site_at dfun coordx coordy (fst s) (dadd (Fin (snd s)) h) = Inr v"
    using Cons.prems(1) by simp
  from Cons.IH [OF this len, of "ds[i := v]"] v i show ?case by (simp add: Let_def)
qed


subsection \<open>A concrete grid\<close>

text \<open>
  The axes \<open>[0, 1, 2]\<close>, a site at height 0 and the radius \<open>0.25\<close>: the seed centre, at the
  height \<open>0.25 * 0.7071067811865476\<close>, lies in the first cell.
\<close>

lemma seed_y_quarter:
  "dadd (Fin 0) (dmul (Fin (1 / 4)) (Fin cos_pi_4)) = Fin (6369051672525773 / 2 ^ 55)"
proof -
  have "round_double (6369051672525773 / 2 ^ 55) = Fin (6369051672525773 / 2 ^ 55)"
    using round_double_idem [OF quarter_cos_pi_4] .
  then show ?thesis unfolding dmul.simps quarter_cos_pi_4 dadd.simps by simp
qed

lemma searchsorted_012:
  assumes "0 < s" and "\<not> 1 < s"
  shows "searchsorted [0, 1, 2] s = 1"
  using assms by (simp add: searchsorted_def binsearch_left.simps [of _ s] Let_def)

lemma searchsorted_012_low:
  assumes "s \<le> 0"
  shows "searchsorted [0, 1, 2] s = 0"
  using assms by (simp add: searchsorted_def binsearch_left.simps [of _ s] Let_def)

lemma seed_y_quarter_index:
  "searchsorted_key [0, 1, 2] (dadd (Fin 0) (dmul (Fin (1 / 4)) (Fin cos_pi_4))) = 1"
  unfolding seed_y_quarter searchsorted_key.simps by (rule searchsorted_012) simp_all

subsection \<open>The sites of \<open>heater_init\<close>\<close>


text \<open>
  When \<open>xmax - xmin\<close> overflows, no site is a finite number, whatever the Halton sample.
\<close>

lemma heater_init_overflow:
  assumes "2 powr 1024 \<le> xmax - xmin" and "halton_ok (qmc 2 (Some 1) w num_sites) 2 num_sites"
    and "x \<in> set (fst (heater_init qmc w xmin xmax num_sites))"
  shows "x = PInf \<or> x = NaN"
proof -
  have o: "round_double (xmax - xmin) = PInf" by (rule round_double_overflow [OF assms(1)])
  from assms(3) obtain row where r: "row \<in> set (qmc 2 (Some 1) w num_sites)"
    and x: "x = dadd (Fin xmin) (dmul (Fin (row ! 0)) PInf)"
    unfolding heater_init_def Let_def o by auto
  from r assms(2) have "length row = 2" and u: "\<forall>u \<in> set row. 0 \<le> u \<and> u < 1"
    by (auto simp: halton_ok_def)
  then have "row ! 0 \<in> set row" by (intro nth_mem) simp
  with u have "0 \<le> row ! 0" by auto
  with x show ?thesis by (cases "row ! 0 = 0") auto
qed

section \<open>The claims\<close>

subsection \<open>Distance field initializer\<close>






text \<open>
  C7. For every pair of sites, \<open>dfun_init\<close> on both sites is the pointwise maximum of
  the two fields that \<open>dfun_init\<close> returns for each site alone, on the same grid and
  with the same radius.
\<close>

theorem dfun_init_union_of_two:
  assumes "same_shape x_grid y_grid"
  shows "dfun_init x_grid y_grid [x1, x2] [y1, y2] seed_radius
       = maximum (dfun_init x_grid y_grid [x1] [y1] seed_radius)
                 (dfun_init x_grid y_grid [x2] [y2] seed_radius)"
proof (rule matrix_eqI)
  let ?A = "dfun_init x_grid y_grid [x1] [y1] seed_radius"
  let ?B = "dfun_init x_grid y_grid [x2] [y2] seed_radius"
  let ?D = "map (map (\<lambda>_. NInf)) x_grid :: fval matrix"
  have sh: "shape ?D = shape x_grid" by simp
  have shA: "shape ?A = shape x_grid" and shB: "shape ?B = shape x_grid"
    and shC: "shape (dfun_init x_grid y_grid [x1, x2] [y1, y2] seed_radius) = shape x_grid"
    unfolding dfun_init_def Let_def by (rule dfun_init_loop_shape [OF assms sh])+
  have ss: "same_shape ?A ?B" using shA shB by (simp add: same_shape_def)
  show "shape (dfun_init x_grid y_grid [x1, x2] [y1, y2] seed_radius) = shape (maximum ?A ?B)"
    using shape_maximum [OF ss] shA shC by simp
  fix i j
  assume "i < length (dfun_init x_grid y_grid [x1, x2] [y1, y2] seed_radius)"
    and "j < length (dfun_init x_grid y_grid [x1, x2] [y1, y2] seed_radius ! i)"
  then have ij: "i < length x_grid" "j < length (x_grid ! i)"
    using shC same_shape_nth [of "dfun_init x_grid y_grid [x1, x2] [y1, y2] seed_radius" x_grid]
    by (simp_all add: same_shape_def)
  then have ijA: "i < length ?A" "j < length (?A ! i)"
    using shA same_shape_nth [of ?A x_grid] by (simp_all add: same_shape_def)
  have D: "?D ! i ! j = NInf" using ij by simp
  note nth = dfun_init_loop_nth [OF assms sh ij, of seed_radius "seed_radius * cos (pi / 4)"]
  show "dfun_init x_grid y_grid [x1, x2] [y1, y2] seed_radius ! i ! j = maximum ?A ?B ! i ! j"
    unfolding nth_maximum [OF ss ijA]
    unfolding dfun_init_def Let_def nth D by simp
qed

theorem dfun_init_union_of_two_witness:
  "same_shape [[0, 1 :: real]] [[0, 0 :: real]]
   \<and> dfun_init [[0, 1]] [[0, 0]] [0, 1] [0, 0] 1
     = maximum (dfun_init [[0, 1]] [[0, 0]] [0] [0] 1) (dfun_init [[0, 1]] [[0, 0]] [1] [0] 1)"
  using dfun_init_union_of_two [of "[[0, 1]]" "[[0, 0]]" 0 1 0 0 1]
  by (simp add: same_shape_def shape_def)

subsection \<open>Renucleation trigger\<close>



text \<open>
  C5. If no site satisfies \<open>dfun_sites[i] < 0\<close> and \<open>liquid_cover_iters[i] >= 4\<close>, then
  \<open>renucleate\<close> returns the field and the counters it was given; and on arrays of one
  shape, whether or not a site satisfies the condition, \<open>renucleate\<close> returns and leaves
  the counter of every site that does not satisfy it unchanged.
\<close>

theorem renucleate_no_trigger:
  assumes "length (zip x_sites y_sites) \<le> length dfun_sites"
    and "length (zip x_sites y_sites) \<le> length liquid_cover_iters"
  shows "((\<forall>i < length (zip x_sites y_sites). \<not> triggered dfun_sites liquid_cover_iters i)
            \<longrightarrow> renucleate x_grid y_grid x_sites y_sites dfun_sites liquid_cover_iters curr_dfun
                  dfun_scale seed_radius = Inr (curr_dfun, liquid_cover_iters))
       \<and> (same_shape x_grid y_grid \<and> same_shape curr_dfun x_grid
            \<longrightarrow> (\<exists>dfun' lci'.
                   renucleate x_grid y_grid x_sites y_sites dfun_sites liquid_cover_iters curr_dfun
                     dfun_scale seed_radius = Inr (dfun', lci')
                 \<and> length lci' = length liquid_cover_iters
                 \<and> (\<forall>i < length liquid_cover_iters.
                       \<not> (i < length (zip x_sites y_sites)
                          \<and> triggered dfun_sites liquid_cover_iters i)
                       \<longrightarrow> lci' ! i = liquid_cover_iters ! i)))"
proof -
  let ?h = "seed_radius * cos (pi / 4)"
  let ?T = "filter (\<lambda>p. triggered dfun_sites liquid_cover_iters (fst p))
              (enumerate 0 (zip x_sites y_sites))"
  let ?ms = "map (\<lambda>p. scaled_seed x_grid y_grid seed_radius ?h dfun_scale (snd p)) ?T"
  from renucleate_loop_char [of 0 "zip x_sites y_sites" dfun_sites liquid_cover_iters
      x_grid y_grid dfun_scale seed_radius ?h curr_dfun] assms(1,2)
  obtain lci' where
    run: "renucleate x_grid y_grid x_sites y_sites dfun_sites liquid_cover_iters curr_dfun
            dfun_scale seed_radius = Inr (foldl maximum curr_dfun ?ms, lci')"
    and l: "length lci' = length liquid_cover_iters"
    and c: "\<forall>k < length liquid_cover_iters. lci' ! k =
              (if k < length (zip x_sites y_sites) \<and> triggered dfun_sites liquid_cover_iters k
               then 0 else liquid_cover_iters ! k)"
    unfolding renucleate_def Let_def by auto
  have "foldl maximum curr_dfun ?ms = curr_dfun \<and> lci' = liquid_cover_iters"
    if none: "\<forall>i < length (zip x_sites y_sites). \<not> triggered dfun_sites liquid_cover_iters i"
  proof -
    have "?T = []"
      unfolding filter_empty_conv using none by (auto simp: in_set_enumerate_eq)
    then have "foldl maximum curr_dfun ?ms = curr_dfun" by simp
    moreover have "lci' = liquid_cover_iters"
    proof (rule nth_equalityI [OF l])
      fix k assume "k < length lci'"
      with l c none show "lci' ! k = liquid_cover_iters ! k" by auto
    qed
    ultimately show ?thesis by simp
  qed
  with run l c show ?thesis by auto
qed

theorem renucleate_no_trigger_witness:
  "length (zip [0, 1 :: real] [0, 0 :: real]) \<le> length [Fin (- 1), Fin 1]
   \<and> length (zip [0, 1 :: real] [0, 0 :: real]) \<le> length [3, 7 :: int]
   \<and> same_shape [[0, 1 :: real]] [[0, 0 :: real]] \<and> same_shape [[NInf, Fin 3]] [[0, 1 :: real]]
   \<and> \<not> triggered [Fin (- 1), Fin 1] [3, 7] 0 \<and> \<not> triggered [Fin (- 1), Fin 1] [3, 7] 1
   \<and> renucleate [[0, 1]] [[0, 0]] [0, 1] [0, 0] [Fin (- 1), Fin 1] [3, 7] [[NInf, Fin 3]] 2 1
       = Inr ([[NInf, Fin 3]], [3, 7])"
proof -
  have t: "\<not> triggered [Fin (- 1), Fin 1] [3, 7] 0" "\<not> triggered [Fin (- 1), Fin 1] [3, 7] 1"
    by (simp_all add: triggered_def)
  then have "\<forall>i < length (zip [0, 1 :: real] [0, 0 :: real]). \<not> triggered [Fin (- 1), Fin 1] [3, 7] i"
    by (simp add: less_Suc_eq)
  with renucleate_no_trigger [of "[0, 1]" "[0, 0]" "[Fin (- 1), Fin 1]" "[3, 7]"
      "[[0, 1]]" "[[0, 0]]" "[[NInf, Fin 3]]" 2 1] t
  show ?thesis by (simp add: same_shape_def shape_def)
qed

subsection \<open>Coverage tagger\<close>

text \<open>
  C3, as amended. When \<open>tag_renucleation\<close> returns on \<open>float64\<close> site arrays, then for every
  site \<open>i\<close>, with the product and the sum of the seed centre taken in double arithmetic,
  \<open>x_i = searchsorted(coordx, x_sites[i])\<close> and
  \<open>y_i = searchsorted(coordy, y_sites[i] + seed_radius*cos(45 deg))\<close>, the four corner reads
  \<open>dfun[y_i, x_i]\<close>, \<open>dfun[y_i-1, x_i]\<close>, \<open>dfun[y_i, x_i-1]\<close>, \<open>dfun[y_i-1, x_i-1]\<close> succeeded,
  and \<open>dfun_sites[i]\<close> is their sum, taken from left to right in double arithmetic, divided
  by 4: the arithmetic mean of the four whenever the three sums and the quotient are doubles.
  The counter of the site is 0 unless that computed value is negative; if it is, the counter
  is its old value plus 1 on \<open>int64\<close>, which is the old value plus 1 below \<open>2^63 - 1\<close>.
\<close>

theorem tag_renucleation_sites:
  assumes "tag_renucleation x_sites y_sites dfun coordx coordy seed_radius liquid_cover_iters
             = Inr (dfun_sites, lci')"
    and "i < length x_sites" and "i < length y_sites"
  shows "\<exists>a b c d.
           getitem2 dfun (int (site_y_i coordy y_sites seed_radius i))
                         (int (site_x_i coordx x_sites i)) = Inr a
         \<and> getitem2 dfun (int (site_y_i coordy y_sites seed_radius i) - 1)
                         (int (site_x_i coordx x_sites i)) = Inr b
         \<and> getitem2 dfun (int (site_y_i coordy y_sites seed_radius i))
                         (int (site_x_i coordx x_sites i) - 1) = Inr c
         \<and> getitem2 dfun (int (site_y_i coordy y_sites seed_radius i) - 1)
                         (int (site_x_i coordx x_sites i) - 1) = Inr d
         \<and> dfun_sites ! i = ddiv (dadd (dadd (dadd a b) c) d) 4
         \<and> (\<forall>a' b' c' d'. a = Fin a' \<and> b = Fin b' \<and> c = Fin c' \<and> d = Fin d'
               \<and> is_double (a' + b') \<and> is_double (a' + b' + c')
               \<and> is_double (a' + b' + c' + d') \<and> is_double ((a' + b' + c' + d') / 4)
               \<longrightarrow> dfun_sites ! i = Fin ((a' + b' + c' + d') / 4))
         \<and> i < length liquid_cover_iters
         \<and> lci' ! i = (if fneg (dfun_sites ! i)
                        then wrap_int64 (liquid_cover_iters ! i + 1) else 0)
         \<and> (- (2 ^ 63) \<le> liquid_cover_iters ! i \<and> liquid_cover_iters ! i < 2 ^ 63 - 1
               \<longrightarrow> wrap_int64 (liquid_cover_iters ! i + 1) = liquid_cover_iters ! i + 1)"
proof -
  let ?h = "dmul (Fin seed_radius) (Fin cos_pi_4)"
  let ?sites = "zip x_sites y_sites"
  let ?ds = "map (\<lambda>_. Fin 0) x_sites :: fval list"
  have run: "tag_loop Float64 dfun coordx coordy ?h 0 ?sites ?ds liquid_cover_iters = Inr (dfun_sites, lci')"
    using assms(1) by (simp add: tag_renucleation_def tag_renucleation_dtype_def Let_def)
  have k: "i < length ?sites" using assms(2,3) by simp
  from tag_loop_char [OF run] k obtain v where
    v: "dfun_site_at dfun coordx coordy (fst (?sites ! i)) (dadd (Fin (snd (?sites ! i))) ?h) = Inr v"
    and il: "0 + i < length liquid_cover_iters"
    and dv: "0 + i < length ?ds \<longrightarrow> dfun_sites ! (0 + i) = v"
    and cv: "lci' ! (0 + i) = (if fneg v then wrap_int64 (liquid_cover_iters ! (0 + i) + 1) else 0)"
    by blast
  have dsi: "dfun_sites ! i = v" using dv assms(2) by simp
  have site: "fst (?sites ! i) = x_sites ! i" "snd (?sites ! i) = y_sites ! i"
    using assms(2,3) by simp_all
  let ?x = "int (site_x_i coordx x_sites i)"
  let ?y = "int (site_y_i coordy y_sites seed_radius i)"
  from v obtain a b c d where
    "getitem2 dfun ?y ?x = Inr a" "getitem2 dfun (?y - 1) ?x = Inr b"
    "getitem2 dfun ?y (?x - 1) = Inr c" "getitem2 dfun (?y - 1) (?x - 1) = Inr d"
    "v = ddiv (dadd (dadd (dadd a b) c) d) 4"
    unfolding dfun_site_at_def Let_def site site_x_i_def site_y_i_def
    by (auto split: sum.splits)
  moreover have "wrap_int64 (liquid_cover_iters ! i + 1) = liquid_cover_iters ! i + 1"
    if "- (2 ^ 63) \<le> liquid_cover_iters ! i \<and> liquid_cover_iters ! i < 2 ^ 63 - 1"
    using that by (intro wrap_int64_in_range) simp_all
  ultimately show ?thesis using dsi cv il
    by (intro exI [of _ a] exI [of _ b] exI [of _ c] exI [of _ d])
       (simp del: ddiv.simps dadd.simps add: mean_of_four_exact is_double_def)
qed

theorem tag_renucleation_sites_witness:
  "tag_renucleation [1 / 2] [0]
     [[Fin (- 1), Fin (- 2), Fin 9], [Fin (- 3), Fin (- 6), Fin 9], [Fin 9, Fin 9, Fin 9]]
     [0, 1, 2] [0, 1, 2] (1 / 4) [2] = Inr ([Fin (- 3)], [3])
   \<and> (0::nat) < length [1 / 2 :: real] \<and> (0::nat) < length [0 :: real]
   \<and> site_x_i [0, 1, 2] [1 / 2] 0 = 1 \<and> site_y_i [0, 1, 2] [0] (1 / 4) 0 = 1"
proof -
  have x: "searchsorted [0, 1, 2] (1 / 2) = 1" by (rule searchsorted_012) simp_all
  have y: "searchsorted_key [0, 1, 2] (dadd (Fin 0) (dmul (Fin (1 / 4)) (Fin cos_pi_4))) = 1"
    by (rule seed_y_quarter_index)
  have s: "dfun_site_at
     [[Fin (- 1), Fin (- 2), Fin 9], [Fin (- 3), Fin (- 6), Fin 9], [Fin 9, Fin 9, Fin 9]]
     [0, 1, 2] [0, 1, 2] (1 / 2) (dadd (Fin 0) (dmul (Fin (1 / 4)) (Fin cos_pi_4))) = Inr (Fin (- 3))"
    unfolding dfun_site_at_def x y by (simp add: getitem2_def getitem_def round_double_numeral round_double_neg_numeral
        round_double_seven_halves)
  have e: "tag_renucleation [1 / 2] [0]
     [[Fin (- 1), Fin (- 2), Fin 9], [Fin (- 3), Fin (- 6), Fin 9], [Fin 9, Fin 9, Fin 9]]
     [0, 1, 2] [0, 1, 2] (1 / 4) [2] = Inr ([Fin (- 3)], [3])"
    unfolding tag_renucleation_def tag_renucleation_dtype_def Let_def list.map zip_Cons_Cons
      zip_Nil tag_loop.simps setitem_value.simps
      fst_conv snd_conv s sum.case
    by (simp add: wrap_int64_def)
  from tag_renucleation_sites [OF e, of 0] e x y show ?thesis
    by (simp add: site_x_i_def site_y_i_def)
qed

text \<open>
  The computed sample is not the arithmetic mean in general, and the counter follows the
  computed sample. With the corners \<open>1e16\<close>, \<open>1\<close>, \<open>-1e16\<close>, \<open>-1\<close>, whose mean is 0, the sum
  \<open>1e16 + 1\<close> rounds to \<open>1e16\<close>, the sample is \<open>-0.25\<close> and the counter goes from 3 to 4. On
  a field of \<open>-inf\<close> the counter \<open>2^63 - 1\<close> wraps around to \<open>-2^63\<close>. And when \<open>x_sites\<close> is an
  array of integers, so is \<open>dfun_sites\<close>: with the corners \<open>-1\<close>, \<open>-1\<close>, \<open>-1\<close>, \<open>0\<close> the sample
  \<open>-0.75\<close> is stored as 0, while the counter goes from 3 to 4.
\<close>

theorem tag_renucleation_sites_counterexample:
  "tag_renucleation [1 / 2] [0]
     [[Fin (- 1), Fin 1, Fin 0], [Fin (- (10 ^ 16)), Fin (10 ^ 16), Fin 0], [Fin 0, Fin 0, Fin 0]]
     [0, 1, 2] [0, 1, 2] (1 / 4) [3] = Inr ([Fin (- 1 / 4)], [4])
   \<and> (10 ^ 16 + 1 + - (10 ^ 16) + - 1) / 4 = (0 :: real)
   \<and> tag_renucleation [1 / 2] [0]
       [[NInf, NInf, NInf], [NInf, NInf, NInf], [NInf, NInf, NInf]]
       [0, 1, 2] [0, 1, 2] (1 / 4) [2 ^ 63 - 1] = Inr ([NInf], [- (2 ^ 63)])
   \<and> tag_renucleation_dtype Int64 [1] [0]
       [[Fin 0, Fin (- 1), Fin 0], [Fin (- 1), Fin (- 1), Fin 0], [Fin 0, Fin 0, Fin 0]]
       [0, 1, 2] [0, 1, 2] (1 / 4) [3] = Inr ([Fin 0], [4])
   \<and> (- 1 + - 1 + - 1 + 0) / 4 = (- 3 / 4 :: real)"
proof -
  let ?I = "[[Fin 0, Fin (- 1), Fin 0], [Fin (- 1), Fin (- 1), Fin 0], [Fin 0, Fin 0, Fin 0]]"
  have xi: "searchsorted [0, 1, 2] 1 = 1" by (rule searchsorted_012) simp_all
  let ?D = "[[Fin (- 1), Fin 1, Fin 0], [Fin (- (10 ^ 16)), Fin (10 ^ 16), Fin 0],
             [Fin 0, Fin 0, Fin 0]]"
  let ?N = "[[NInf, NInf, NInf], [NInf, NInf, NInf], [NInf, NInf, NInf]]"
  have x: "searchsorted [0, 1, 2] (1 / 2) = 1" by (rule searchsorted_012) simp_all
  have y: "searchsorted_key [0, 1, 2] (dadd (Fin 0) (dmul (Fin (1 / 4)) (Fin cos_pi_4))) = 1"
    by (rule seed_y_quarter_index)
  have t: "round_double 10000000000000001 = Fin 10000000000000000"
    using round_double_tie by simp
  have q: "round_double (- (1 / 4)) = Fin (- (1 / 4))"
    using round_double_minus_quarter by simp
  have s: "dfun_site_at ?D [0, 1, 2] [0, 1, 2] (1 / 2) (dadd (Fin 0) (dmul (Fin (1 / 4)) (Fin cos_pi_4)))
           = Inr (Fin (- 1 / 4))"
    unfolding dfun_site_at_def x y
    by (simp add: getitem2_def getitem_def t q)
  have e1: "tag_renucleation [1 / 2] [0] ?D [0, 1, 2] [0, 1, 2] (1 / 4) [3]
            = Inr ([Fin (- 1 / 4)], [4])"
    unfolding tag_renucleation_def tag_renucleation_dtype_def Let_def list.map zip_Cons_Cons
      zip_Nil tag_loop.simps setitem_value.simps
      fst_conv snd_conv s sum.case
    by (simp add: wrap_int64_def)
  have sn: "dfun_site_at ?N [0, 1, 2] [0, 1, 2] (1 / 2) (dadd (Fin 0) (dmul (Fin (1 / 4)) (Fin cos_pi_4)))
            = Inr NInf"
    unfolding dfun_site_at_def x y by (simp add: getitem2_def getitem_def)
  have e2: "tag_renucleation [1 / 2] [0] ?N [0, 1, 2] [0, 1, 2] (1 / 4) [2 ^ 63 - 1]
            = Inr ([NInf], [- (2 ^ 63)])"
    unfolding tag_renucleation_def tag_renucleation_dtype_def Let_def list.map zip_Cons_Cons
      zip_Nil tag_loop.simps setitem_value.simps
      fst_conv snd_conv sn sum.case
    by (simp add: wrap_int64_def)
  have si: "dfun_site_at ?I [0, 1, 2] [0, 1, 2] 1 (dadd (Fin 0) (dmul (Fin (1 / 4)) (Fin cos_pi_4)))
            = Inr (Fin (- 3 / 4))"
    unfolding dfun_site_at_def xi y
    using round_double_minus_three_quarters
    by (simp add: getitem2_def getitem_def round_double_neg_numeral)
  have e3: "tag_renucleation_dtype Int64 [1] [0] ?I [0, 1, 2] [0, 1, 2] (1 / 4) [3]
            = Inr ([Fin 0], [4])"
    unfolding tag_renucleation_dtype_def Let_def list.map zip_Cons_Cons
      zip_Nil tag_loop.simps fst_conv snd_conv si sum.case
    by (simp add: wrap_int64_def)
  show ?thesis using e1 e2 e3 by simp
qed

text \<open>
  C8. Let \<open>dfun\<close> have the shape \<open>(len(coordy), len(coordx))\<close> and a counter for every
  site. If \<open>1 \<le> x_i \<le> len(coordx)-1\<close> and \<open>1 \<le> y_i \<le> len(coordy)-1\<close> for a site, its four
  corner reads are in bounds, and if this holds for every site \<open>tag_renucleation\<close>
  returns. When the search lands at 0 on an axis, the corner index \<open>-1\<close> reads the last
  element along that axis, and \<open>tag_renucleation\<close> validates nothing and raises nothing:
  it returns whenever every \<open>x_i\<close> and \<open>y_i\<close> is below the length of its axis.
\<close>

theorem tag_renucleation_corner_reads:
  assumes "shape dfun = replicate (length coordy) (length coordx)"
    and "length (zip x_sites y_sites) \<le> length liquid_cover_iters"
  shows "(\<forall>i < length (zip x_sites y_sites).
            1 \<le> site_x_i coordx x_sites i \<and> site_x_i coordx x_sites i \<le> length coordx - 1
          \<and> 1 \<le> site_y_i coordy y_sites seed_radius i
          \<and> site_y_i coordy y_sites seed_radius i \<le> length coordy - 1
          \<longrightarrow> in_bounds dfun (int (site_y_i coordy y_sites seed_radius i))
                             (int (site_x_i coordx x_sites i))
            \<and> in_bounds dfun (int (site_y_i coordy y_sites seed_radius i) - 1)
                             (int (site_x_i coordx x_sites i))
            \<and> in_bounds dfun (int (site_y_i coordy y_sites seed_radius i))
                             (int (site_x_i coordx x_sites i) - 1)
            \<and> in_bounds dfun (int (site_y_i coordy y_sites seed_radius i) - 1)
                             (int (site_x_i coordx x_sites i) - 1))
       \<and> ((\<forall>i < length (zip x_sites y_sites).
              1 \<le> site_x_i coordx x_sites i \<and> site_x_i coordx x_sites i \<le> length coordx - 1
            \<and> 1 \<le> site_y_i coordy y_sites seed_radius i
            \<and> site_y_i coordy y_sites seed_radius i \<le> length coordy - 1)
           \<longrightarrow> (\<exists>res. tag_renucleation x_sites y_sites dfun coordx coordy seed_radius
                          liquid_cover_iters = Inr res))
       \<and> (\<forall>i < length (zip x_sites y_sites).
            site_x_i coordx x_sites i = 0 \<and> 0 < length coordx
          \<and> site_y_i coordy y_sites seed_radius i < length coordy
          \<longrightarrow> getitem2 dfun (int (site_y_i coordy y_sites seed_radius i))
                             (int (site_x_i coordx x_sites i) - 1)
              = Inr (dfun ! site_y_i coordy y_sites seed_radius i ! (length coordx - 1)))
       \<and> (\<forall>i < length (zip x_sites y_sites).
            site_y_i coordy y_sites seed_radius i = 0 \<and> 0 < length coordy
          \<and> site_x_i coordx x_sites i < length coordx
          \<longrightarrow> getitem2 dfun (int (site_y_i coordy y_sites seed_radius i) - 1)
                             (int (site_x_i coordx x_sites i))
              = Inr (dfun ! (length coordy - 1) ! site_x_i coordx x_sites i))
       \<and> ((\<forall>i < length (zip x_sites y_sites).
              site_x_i coordx x_sites i < length coordx
            \<and> site_y_i coordy y_sites seed_radius i < length coordy)
           \<longrightarrow> (\<exists>res. tag_renucleation x_sites y_sites dfun coordx coordy seed_radius
                          liquid_cover_iters = Inr res))"
proof -
  let ?n = "length (zip x_sites y_sites)"
  let ?h = "dmul (Fin seed_radius) (Fin cos_pi_4)"
  let ?x = "\<lambda>i. site_x_i coordx x_sites i"
  let ?y = "\<lambda>i. site_y_i coordy y_sites seed_radius i"
  have ny: "length dfun = length coordy"
    using assms(1) unfolding shape_def by (metis length_map length_replicate)
  have row: "length (dfun ! k) = length coordx" if "k < length coordy" for k
    using assms(1) that ny unfolding shape_def by (metis nth_map nth_replicate)
  have inb: "in_bounds dfun (int (?y i)) (int (?x i)) \<and> in_bounds dfun (int (?y i) - 1) (int (?x i))
           \<and> in_bounds dfun (int (?y i)) (int (?x i) - 1)
           \<and> in_bounds dfun (int (?y i) - 1) (int (?x i) - 1)"
    if "1 \<le> ?x i" "?x i \<le> length coordx - 1" "1 \<le> ?y i" "?y i \<le> length coordy - 1" for i
  proof -
    have y: "?y i < length coordy" "?y i - 1 < length coordy" using that by simp_all
    have x: "?x i < length coordx" using that by simp
    have n: "nat (int (?y i) - 1) = ?y i - 1" using that by simp
    show ?thesis
      unfolding in_bounds_def using that x y ny row [OF y(1)] row [OF y(2)]
      by (simp add: n)
  qed
  have total: "\<exists>res. tag_renucleation x_sites y_sites dfun coordx coordy seed_radius
                          liquid_cover_iters = Inr res"
    if all: "\<forall>i < ?n. ?x i < length coordx \<and> ?y i < length coordy"
  proof -
    have "\<exists>v. dfun_site_at dfun coordx coordy (fst s) (dadd (Fin (snd s)) ?h) = Inr v"
      if s: "s \<in> set (zip x_sites y_sites)" for s
    proof -
      from s obtain i where i: "i < ?n" "zip x_sites y_sites ! i = s"
        by (auto simp: in_set_conv_nth)
      then have "fst s = x_sites ! i" "snd s = y_sites ! i" by auto
      with all i(1) show ?thesis
        by (intro dfun_site_at_rect [OF assms(1)]) (simp_all add: site_x_i_def site_y_i_def)
    qed
    then have "\<forall>s \<in> set (zip x_sites y_sites).
                 \<exists>v. dfun_site_at dfun coordx coordy (fst s) (dadd (Fin (snd s)) ?h) = Inr v" by blast
    from tag_loop_total [OF this, of 0 liquid_cover_iters] assms(2) show ?thesis
      by (simp add: tag_renucleation_def tag_renucleation_dtype_def Let_def)
  qed
  have total1: "\<exists>res. tag_renucleation x_sites y_sites dfun coordx coordy seed_radius
                          liquid_cover_iters = Inr res"
    if "\<forall>i < ?n. 1 \<le> ?x i \<and> ?x i \<le> length coordx - 1
                  \<and> 1 \<le> ?y i \<and> ?y i \<le> length coordy - 1"
  proof (rule total, intro allI impI)
    fix i assume "i < ?n"
    with that have "1 \<le> ?x i \<and> ?x i \<le> length coordx - 1
                  \<and> 1 \<le> ?y i \<and> ?y i \<le> length coordy - 1" by blast
    then show "?x i < length coordx \<and> ?y i < length coordy" by linarith
  qed
  have wrapx: "getitem2 dfun (int (?y i)) (int (?x i) - 1)
             = Inr (dfun ! ?y i ! (length coordx - 1))"
    if "?x i = 0" "0 < length coordx" "?y i < length coordy" for i
    using getitem2_rect(3) [OF assms(1), of "?y i" "?x i"] that by simp
  have wrapy: "getitem2 dfun (int (?y i) - 1) (int (?x i))
             = Inr (dfun ! (length coordy - 1) ! ?x i)"
    if "?y i = 0" "0 < length coordy" "?x i < length coordx" for i
    using getitem2_rect(2) [OF assms(1), of "?y i" "?x i"] that by simp
  show ?thesis using inb total1 wrapx wrapy total by blast
qed

theorem tag_renucleation_corner_reads_witness:
  "shape [[Fin (- 1), Fin (- 2), Fin 9], [Fin (- 3), Fin (- 6), Fin 9], [Fin 9, Fin 9, Fin 9]]
     = replicate (length [0, 1, 2 :: real]) (length [0, 1, 2 :: real])
   \<and> length (zip [1 / 2, - 1 :: real] [0, 0 :: real]) \<le> length [2, 5 :: int]
   \<and> site_x_i [0, 1, 2] [1 / 2, - 1] 0 = 1 \<and> site_y_i [0, 1, 2] [0, 0] (1 / 4) 0 = 1
   \<and> site_x_i [0, 1, 2] [1 / 2, - 1] 1 = 0 \<and> site_y_i [0, 1, 2] [0, 0] (1 / 4) 1 = 1
   \<and> getitem2 [[Fin (- 1), Fin (- 2), Fin 9], [Fin (- 3), Fin (- 6), Fin 9], [Fin 9, Fin 9, Fin 9]]
        1 (- 1) = Inr (Fin 9)
   \<and> tag_renucleation [1 / 2, - 1] [0, 0]
        [[Fin (- 1), Fin (- 2), Fin 9], [Fin (- 3), Fin (- 6), Fin 9], [Fin 9, Fin 9, Fin 9]]
        [0, 1, 2] [0, 1, 2] (1 / 4) [2, 5] = Inr ([Fin (- 3), Fin (7 / 2)], [3, 0])"
proof -
  let ?D = "[[Fin (- 1), Fin (- 2), Fin 9], [Fin (- 3), Fin (- 6), Fin 9], [Fin 9, Fin 9, Fin 9]]"
  have x0: "searchsorted [0, 1, 2] (1 / 2) = 1" by (rule searchsorted_012) simp_all
  have x1: "searchsorted [0, 1, 2] (- 1) = 0" by (rule searchsorted_012_low) simp
  have y: "searchsorted_key [0, 1, 2] (dadd (Fin 0) (dmul (Fin (1 / 4)) (Fin cos_pi_4))) = 1"
    by (rule seed_y_quarter_index)
  have s0: "dfun_site_at ?D [0, 1, 2] [0, 1, 2] (1 / 2) (dadd (Fin 0) (dmul (Fin (1 / 4)) (Fin cos_pi_4)))
            = Inr (Fin (- 3))"
    unfolding dfun_site_at_def x0 y by (simp add: getitem2_def getitem_def round_double_numeral round_double_neg_numeral
        round_double_seven_halves)
  have s1: "dfun_site_at ?D [0, 1, 2] [0, 1, 2] (- 1) (dadd (Fin 0) (dmul (Fin (1 / 4)) (Fin cos_pi_4)))
            = Inr (Fin (7 / 2))"
    unfolding dfun_site_at_def x1 y by (simp add: getitem2_def getitem_def round_double_numeral round_double_neg_numeral
        round_double_seven_halves)
  have e: "tag_renucleation [1 / 2, - 1] [0, 0] ?D
             [0, 1, 2] [0, 1, 2] (1 / 4) [2, 5] = Inr ([Fin (- 3), Fin (7 / 2)], [3, 0])"
    unfolding tag_renucleation_def tag_renucleation_dtype_def Let_def list.map zip_Cons_Cons
      zip_Nil tag_loop.simps setitem_value.simps
      fst_conv snd_conv s0 s1 sum.case
    by (simp add: wrap_int64_def)
  have i: "site_x_i [0, 1, 2] [1 / 2, - 1] 0 = 1"
    "site_y_i [0, 1, 2] [0, 0] (1 / 4) 0 = 1"
    "site_x_i [0, 1, 2] [1 / 2, - 1] 1 = 0"
    "site_y_i [0, 1, 2] [0, 0] (1 / 4) 1 = 1"
    unfolding site_x_i_def site_y_i_def using x0 x1 y by simp_all
  have sh: "shape ?D = replicate (length [0, 1, 2 :: real]) (length [0, 1, 2 :: real])"
    by (simp add: shape_def numeral_3_eq_3)
  have l: "length (zip [1 / 2, - 1 :: real] [0, 0 :: real]) \<le> length [2, 5 :: int]"
    by simp
  have g: "getitem2 ?D 1 (- 1) = Inr (Fin 9)" by (simp add: getitem2_def getitem_def round_double_numeral round_double_neg_numeral
        round_double_seven_halves)
  from tag_renucleation_corner_reads [OF sh l, of "1 / 4"]
    sh l i g e
  show ?thesis by blast
qed

subsection \<open>Tagger and trigger, step after step\<close>



subsection \<open>Site sampler\<close>




text \<open>
  C10. \<open>heater_init\<close> builds its Halton engine with the fixed seed 1 on every call, so
  its result does not depend on the ambient state an unseeded engine would draw from: two
  calls with the same arguments return the same arrays.
\<close>

theorem heater_init_deterministic:
  assumes "seeded qmc"
  shows "heater_init qmc w xmin xmax num_sites = heater_init qmc w' xmin xmax num_sites"
proof -
  from assms have "qmc 2 (Some 1) w num_sites = qmc 2 (Some 1) w' num_sites"
    unfolding seeded_def by blast
  then show ?thesis unfolding heater_init_def Let_def by simp
qed

theorem heater_init_deterministic_witness:
  "seeded (\<lambda>d s (w::real) n. case s of Some k \<Rightarrow> replicate n (replicate d (1 / (real k + 1)))
                                     | None \<Rightarrow> replicate n (replicate d w))
   \<and> heater_init (\<lambda>d s (w::real) n. case s of Some k \<Rightarrow> replicate n (replicate d (1 / (real k + 1)))
                                     | None \<Rightarrow> replicate n (replicate d w)) 0 (-5) 5 3
     = heater_init (\<lambda>d s (w::real) n. case s of Some k \<Rightarrow> replicate n (replicate d (1 / (real k + 1)))
                                     | None \<Rightarrow> replicate n (replicate d w)) (1 / 3) (-5) 5 3"
proof -
  have h: "seeded (\<lambda>d s (w::real) n. case s of Some k \<Rightarrow> replicate n (replicate d (1 / (real k + 1)))
                                     | None \<Rightarrow> replicate n (replicate d w))"
    by (simp add: seeded_def)
  from heater_init_deterministic [OF h, of 0 "-5" 5 3 "1 / 3"] h show ?thesis by blast
qed

end
